theory Spec2Isabelle
  imports Main "HOL-Library.AList"
begin

section \<open>Values exchanged with the host environment\<close>

text \<open>
  The manager class \<open>Veins\<close> (second half of \<open>src/wshelper.ts\<close>) is event driven: the
  browser calls its methods and hooks one at a time. Each method is embedded as a function
  on a record of the instance fields, extended by the parts of the browser the methods
  read or change (the socket objects, the active timers, the outstanding token promises)
  and by the list of calls the manager has made on its collaborators.

  Function objects are compared by identity only (\<open>callback === this.keys[key][i]\<close>), so a
  callback is represented by a number naming the function object. Callbacks are opaque:
  calling one is recorded, and a callback is taken to return normally without calling
  back into the manager.
\<close>

type_synonym messageCallback = nat
type_synonym errorCallback = nat

text \<open>Decoded JSON payloads (the \<open>data\<close> field is of type \<open>any\<close>).\<close>

datatype json =
    JNull
  | JBool bool
  | JNum int
  | JStr string
  | JArr "json list"
  | JObj "(string \<times> json) list"

text \<open>
  \<open>MessageStruct\<close> as declared in the source: \<open>data\<close> and \<open>error\<close> are optional,
  \<open>error\<close> is an object with a numeric \<open>code\<close> and a \<open>msg\<close>. The wire format of the
  specification has integer codes and string messages; they are modelled as such.
  \<open>err_code\<close> is the integer that the JSON text writes; the runtime holds it as the
  nearest double (\<open>Number_value\<close> below).
\<close>

datatype ErrorStruct = ErrorStruct (err_code: int) (err_msg: string)

record MessageStruct =
  msg_data :: "json option"
  msg_error :: "ErrorStruct option"
  msg_key :: string

text \<open>The exceptions the modelled code can raise.\<close>

datatype js_exception = TypeError | SyntaxError | InvalidStateError

text \<open>
  Outbound control frames. \<open>Obj f\<close> stands for \<open>JSON.stringify\<close> of one object,
  \<open>Arr fs\<close> for \<open>JSON.stringify\<close> of an array of objects.
\<close>

datatype frame = Connect string | Track string | Untrack string | Ping

datatype payload = Obj frame | Arr "frame list"

text \<open>
  The calls the manager makes on its collaborators, in order: \<open>send\<close> and \<open>close\<close> on a
  socket (named by its number), the error callback, a message callback, the token
  provider, and \<open>console.error\<close> inside \<open>WSHelper\<close>.
\<close>

datatype effect =
    Send nat payload
  | CloseCall nat nat string
  | ErrorCb string
  | Invoke messageCallback "json option"
  | AuthCall
  | ConsoleError string

text \<open>\<open>WebSocket.readyState\<close>: 0, 1, 2 and 3 in this order.\<close>

datatype ready_state = CONNECTING | OPEN | CLOSING | CLOSED

text \<open>
  A socket object made by \<open>WSHelper\<close>. \<open>open_auth\<close> is the token that \<open>_open\<close> binds into
  the socket's open hook (\<open>_this._sockOpen.bind(_this, auth)\<close>).
\<close>

record WebSocket_obj =
  ws_url :: string
  readyState :: ready_state
  open_auth :: string

text \<open>The field \<open>socket: WebSocket | null | false\<close>.\<close>

datatype socket_ref = SockNull | SockFalse | Sock nat

text \<open>
  The two timers the class creates: the keepalive interval of \<open>_open\<close>, whose callback
  is the ping tick, and the timeout of \<open>_sockClose\<close>, whose callback calls \<open>_open\<close>.
  The argument is the delay in milliseconds.
\<close>

datatype timer = Interval nat | Timeout nat

fun is_Interval :: "timer \<Rightarrow> bool" where
  "is_Interval (Interval ms) = True"
| "is_Interval (Timeout ms) = False"

text \<open>The payload of a message event: a string, or a Blob (given by its text).\<close>

datatype ev_data = Text string | Blob string

section \<open>The instance\<close>

text \<open>
  The first six fields are those of the class (\<open>auth\<close> is the token provider; its calls
  are recorded as \<open>AuthCall\<close> and its promise is settled by an event). The others are the
  environment: \<open>has_WebSocket\<close> is \<open>'WebSocket' in window\<close>, \<open>heap\<close> holds the socket
  objects made so far, \<open>timers\<close> the active timers by id (timer ids are positive and
  handed out in increasing order; intervals and timeouts share one pool of ids),
  \<open>auth_pending\<close> counts the promises of \<open>this.auth()\<close> not settled yet, \<open>readers\<close> the
  Blob reads not finished yet, and \<open>calls\<close> the calls made so far.
\<close>

record Veins =
  close :: bool
  error :: "errorCallback option"
  keys :: "(string \<times> messageCallback list) list"
  ping :: nat
  socket :: socket_ref
  url :: string
  has_WebSocket :: bool
  heap :: "nat \<Rightarrow> WebSocket_obj option"
  next_sock :: nat
  timers :: "(nat \<times> timer) list"
  next_timer :: nat
  auth_pending :: nat
  readers :: "string list"
  calls :: "effect list"

text \<open>The constructor, with the field initialisers of the class.\<close>

definition Veins_new :: "string \<Rightarrow> errorCallback option \<Rightarrow> bool \<Rightarrow> Veins" where
  "Veins_new u err ws =
     \<lparr> close = True, error = err, keys = [], ping = 0, socket = SockNull, url = u,
       has_WebSocket = ws, heap = (\<lambda>n. None), next_sock = 0, timers = [], next_timer = 1,
       auth_pending = 0, readers = [], calls = [] \<rparr>"

section \<open>The registry object\<close>

text \<open>
  \<open>keys\<close> is a plain object created by \<open>{}\<close>, modelled by the association list of its own
  properties in creation order. The operator \<open>in\<close> also finds the properties inherited
  from \<open>Object.prototype\<close>; none of them is an array.
\<close>

definition Object_prototype_names :: "string list" where
  "Object_prototype_names =
     [''constructor'', ''hasOwnProperty'', ''isPrototypeOf'', ''propertyIsEnumerable'',
      ''toLocaleString'', ''toString'', ''valueOf'', ''__proto__'',
      ''__defineGetter__'', ''__defineSetter__'', ''__lookupGetter__'', ''__lookupSetter__'']"

definition has_property :: "string \<Rightarrow> (string \<times> 'a) list \<Rightarrow> bool" where
  "has_property k obj = (k \<in> fst ` set obj \<or> k \<in> set Object_prototype_names)"

text \<open>
  \<open>Object.keys\<close> lists the own properties: first the array indices (canonical decimal
  numerals below \<open>2^32 - 1\<close>) in increasing order, then the other names in creation order.
\<close>

definition is_digit :: "char \<Rightarrow> bool" where
  "is_digit c = (c \<in> set ''0123456789'')"

definition digit_value :: "char \<Rightarrow> nat" where
  "digit_value c = of_char c - 48"

definition digits_value :: "string \<Rightarrow> nat" where
  "digits_value k = foldl (\<lambda>n c. 10 * n + digit_value c) 0 k"

definition is_array_index :: "string \<Rightarrow> bool" where
  "is_array_index k =
     (k \<noteq> [] \<and> list_all is_digit k \<and> (length k = 1 \<or> hd k \<noteq> CHR ''0'')
      \<and> digits_value k < 4294967295)"

definition Object_keys :: "(string \<times> 'a) list \<Rightarrow> string list" where
  "Object_keys obj =
     sort_key digits_value (filter is_array_index (map fst obj))
     @ filter (\<lambda>k. \<not> is_array_index k) (map fst obj)"

text \<open>
  Modelled from the spec: \<open>empty\<close> of the package \<open>@ouroboros/tools\<close> is not among the
  sources; the specification reads the test as "the Registry is now completely empty".
\<close>

definition empty :: "(string \<times> 'a) list \<Rightarrow> bool" where
  "empty obj = (obj = [])"

section \<open>Sockets and timers of the browser\<close>

definition readyState_of :: "Veins \<Rightarrow> nat \<Rightarrow> ready_state" where
  "readyState_of s n = (case heap s n of Some w \<Rightarrow> readyState w | None \<Rightarrow> CLOSED)"

definition set_readyState :: "nat \<Rightarrow> ready_state \<Rightarrow> Veins \<Rightarrow> Veins" where
  "set_readyState n r s =
     (case heap s n of
        Some w \<Rightarrow> s\<lparr>heap := (heap s)(n \<mapsto> w\<lparr>readyState := r\<rparr>)\<rparr>
      | None \<Rightarrow> s)"

definition record_call :: "effect \<Rightarrow> Veins \<Rightarrow> Veins" where
  "record_call c s = s\<lparr>calls := calls s @ [c]\<rparr>"

text \<open>
  \<open>WebSocket.send\<close>: raises \<open>InvalidStateError\<close> while the socket is connecting; otherwise
  the call is accepted (on a closing or closed socket the browser drops the data).
\<close>

definition WebSocket_send :: "nat \<Rightarrow> payload \<Rightarrow> Veins \<Rightarrow> js_exception + Veins" where
  "WebSocket_send n p s =
     (if readyState_of s n = CONNECTING then Inl InvalidStateError
      else Inr (record_call (Send n p) s))"

text \<open>
  \<open>WebSocket.close(code, reason)\<close>: starts the closing handshake unless the socket is
  closing or closed already; the close event comes later.
\<close>

definition WebSocket_close :: "nat \<Rightarrow> nat \<Rightarrow> string \<Rightarrow> Veins \<Rightarrow> Veins" where
  "WebSocket_close n code reason s =
     (let s1 = record_call (CloseCall n code reason) s
      in if readyState_of s n = CONNECTING \<or> readyState_of s n = OPEN
         then set_readyState n CLOSING s1 else s1)"

definition setInterval :: "nat \<Rightarrow> Veins \<Rightarrow> nat \<times> Veins" where
  "setInterval ms s =
     (next_timer s,
      s\<lparr>timers := timers s @ [(next_timer s, Interval ms)], next_timer := Suc (next_timer s)\<rparr>)"

definition setTimeout :: "nat \<Rightarrow> Veins \<Rightarrow> nat \<times> Veins" where
  "setTimeout ms s =
     (next_timer s,
      s\<lparr>timers := timers s @ [(next_timer s, Timeout ms)], next_timer := Suc (next_timer s)\<rparr>)"

definition clearInterval :: "nat \<Rightarrow> Veins \<Rightarrow> Veins" where
  "clearInterval i s = s\<lparr>timers := filter (\<lambda>t. fst t \<noteq> i) (timers s)\<rparr>"

text \<open>
  \<open>WSHelper(url, conf)\<close> as \<open>_open\<close> calls it: \<open>conf\<close> is an object literal with the hooks
  of the manager, so the test \<open>typeof conf !== 'object'\<close> fails and only the first guard
  can return \<open>false\<close> (\<open>None\<close> here). The hooks of the new socket are the manager's, the
  open hook with the token bound. The URL is taken to be one the constructor accepts.
\<close>

definition WSHelper :: "string \<Rightarrow> string \<Rightarrow> Veins \<Rightarrow> nat option \<times> Veins" where
  "WSHelper u tok s =
     (if \<not> has_WebSocket s
      then (None, record_call (ConsoleError ''websocket: WebSockets not supported'') s)
      else (Some (next_sock s),
            s\<lparr>heap := (heap s)(next_sock s \<mapsto>
                    \<lparr>ws_url = u, readyState = CONNECTING, open_auth = tok\<rparr>),
              next_sock := Suc (next_sock s)\<rparr>))"

section \<open>The methods of the manager\<close>

subsection \<open>\<open>_open\<close>\<close>

text \<open>
  \<open>_open\<close> calls the token provider and attaches one continuation to its promise with
  \<open>then\<close>; no rejection handler is attached. \<open>Veins_open\<close> is the synchronous part,
  \<open>open_then\<close> the continuation, run when the promise is fulfilled with the token.
\<close>

definition Veins_open :: "Veins \<Rightarrow> Veins" where
  "Veins_open s = record_call AuthCall (s\<lparr>auth_pending := Suc (auth_pending s)\<rparr>)"

definition open_then :: "string \<Rightarrow> Veins \<Rightarrow> Veins" where
  "open_then tok s =
     (case WSHelper (url s) tok s of
        (None, s1) \<Rightarrow>
          (let s2 = s1\<lparr>socket := SockFalse\<rparr>
           in case error s2 of
                Some f \<Rightarrow> record_call (ErrorCb ''Websockets not supported'') s2
              | None \<Rightarrow> s2)
      | (Some n, s1) \<Rightarrow>
          (let s2 = s1\<lparr>socket := Sock n\<rparr>
           in if ping s2 = 0
              then (case setInterval 300000 s2 of (i, s3) \<Rightarrow> s3\<lparr>ping := i\<rparr>)
              else s2))"

text \<open>The callback of the keepalive interval.\<close>

definition ping_tick :: "Veins \<Rightarrow> js_exception + Veins" where
  "ping_tick s =
     (case socket s of
        Sock n \<Rightarrow> WebSocket_send n (Obj Ping) s
      | SockNull \<Rightarrow> Inr s
      | SockFalse \<Rightarrow> Inr s)"

subsection \<open>\<open>_sockClose\<close>\<close>

definition sockClose :: "Veins \<Rightarrow> Veins" where
  "sockClose s =
     (let s1 = (if ping s \<noteq> 0 then clearInterval (ping s) s else s)
      in if close s1 then s1\<lparr>socket := SockNull\<rparr>
         else snd (setTimeout 5000 (s1\<lparr>close := True\<rparr>)))"

subsection \<open>\<open>_sockMessage\<close>\<close>

text \<open>
  Numbers are doubles. \<open>JSON.parse\<close> reads an integer literal as the nearest double,
  ties going to the even significand, and as \<open>Infinity\<close> (\<open>None\<close>) when the rounded
  value reaches \<open>2^1024\<close>.
  \<open>ulp_of n\<close> is the distance between the doubles around \<open>n\<close>: 1 below \<open>2^53\<close>,
  doubled with every further bit.
\<close>

function ulp_of :: "nat \<Rightarrow> nat" where
  "ulp_of n = (if n < 9007199254740992 then 1 else 2 * ulp_of (n div 2))"
  by pat_completeness auto
termination
  by (relation "measure (\<lambda>n. n)") auto

declare ulp_of.simps [simp del]

definition round_to_multiple :: "nat \<Rightarrow> nat \<Rightarrow> nat" where
  "round_to_multiple n u =
     (if u < 2 * (n mod u) then (n div u + 1) * u
      else if 2 * (n mod u) = u \<and> (n div u) mod 2 = 1 then (n div u + 1) * u
      else n div u * u)"

definition finite_value :: "nat \<Rightarrow> nat option" where
  "finite_value v = (if 2 ^ 1024 \<le> v then None else Some v)"

definition Number_value :: "nat \<Rightarrow> nat option" where
  "Number_value n = finite_value (round_to_multiple n (ulp_of n))"

text \<open>
  Conversion of a number to a string inside a template literal (\<open>Number::toString\<close> of
  the language, radix 10), for doubles that are integers. The digits are those of the
  shortest decimal numeral that reads back as the same double, the closest to the double
  among the shortest ones (the even one on a tie): \<open>shortest d e\<close> looks for it among the
  multiples of \<open>10^e\<close>, from the numerals with one significant digit on. A numeral of
  up to 21 digits is written in full, a longer one with an exponent.
\<close>

function nat_toString :: "nat \<Rightarrow> string" where
  "nat_toString n =
     (if n < 10 then [''0123456789'' ! n]
      else nat_toString (n div 10) @ [''0123456789'' ! (n mod 10)])"
  by pat_completeness auto
termination
  by (relation "measure (\<lambda>n. n)") auto

declare nat_toString.simps [simp del]

definition closest_of :: "nat \<Rightarrow> nat \<Rightarrow> nat \<Rightarrow> nat option" where
  "closest_of d lo p =
     (if Number_value lo = Some d
      then (if Number_value (lo + p) = Some d
            then (if d - lo < lo + p - d then Some lo
                  else if lo + p - d < d - lo then Some (lo + p)
                  else if (lo div p) mod 2 = 0 then Some lo
                  else Some (lo + p))
            else Some lo)
      else if Number_value (lo + p) = Some d then Some (lo + p)
      else None)"

fun shortest :: "nat \<Rightarrow> nat \<Rightarrow> nat" where
  "shortest d 0 = d"
| "shortest d (Suc e) =
     (case closest_of d (d div 10 ^ Suc e * 10 ^ Suc e) (10 ^ Suc e) of
        Some c \<Rightarrow> c
      | None \<Rightarrow> shortest d e)"

definition strip_zeros :: "string \<Rightarrow> string" where
  "strip_zeros ds = rev (dropWhile (\<lambda>c. c = CHR ''0'') (rev ds))"

definition exponential :: "string \<Rightarrow> string" where
  "exponential ds =
     (if length (strip_zeros ds) = 1 then strip_zeros ds
      else hd (strip_zeros ds) # CHR ''.'' # tl (strip_zeros ds))
     @ ''e+'' @ nat_toString (length ds - 1)"

definition decimal_or_exponential :: "string \<Rightarrow> string" where
  "decimal_or_exponential ds = (if length ds \<le> 21 then ds else exponential ds)"

definition double_toString :: "nat \<Rightarrow> string" where
  "double_toString d =
     (if d = 0 then ''0''
      else decimal_or_exponential (nat_toString (shortest d (length (nat_toString d) - 1))))"

definition positive_toString :: "nat \<Rightarrow> string" where
  "positive_toString n =
     (case Number_value n of None \<Rightarrow> ''Infinity'' | Some d \<Rightarrow> double_toString d)"

definition Number_toString :: "int \<Rightarrow> string" where
  "Number_toString i =
     (if i < 0 then CHR ''-'' # positive_toString (nat (- i)) else positive_toString (nat i))"

text \<open>
  The inner function \<open>handleMsg\<close>. An inherited property of \<open>keys\<close> is not iterable, so
  \<open>for ... of\<close> raises \<open>TypeError\<close> on it.
\<close>

definition handleMsg :: "MessageStruct \<Rightarrow> Veins \<Rightarrow> js_exception + Veins" where
  "handleMsg m s =
     (case msg_error m of
        Some e \<Rightarrow>
          (case error s of
             Some f \<Rightarrow>
               Inr (record_call
                 (ErrorCb (''Websocket failed: '' @ err_msg e @ '' ('' @
                           Number_toString (err_code e) @ '')'')) s)
           | None \<Rightarrow> Inr s)
      | None \<Rightarrow>
          if has_property (msg_key m) (keys s)
          then (case map_of (keys s) (msg_key m) of
                  Some cbs \<Rightarrow> Inr (s\<lparr>calls := calls s @ map (\<lambda>f. Invoke f (msg_data m)) cbs\<rparr>)
                | None \<Rightarrow> Inl TypeError)
          else Inr s)"

text \<open>
  \<open>JSON.parse\<close> belongs to the language runtime and is a parameter: \<open>parse t = None\<close>
  when \<open>t\<close> is not JSON (\<open>SyntaxError\<close>), and otherwise the value, which the source
  types as \<open>MessageStruct\<close>. A Blob is handed to a \<open>FileReader\<close>; its text is parsed when
  the reader's \<open>loadend\<close> event comes (\<open>reader_loadend\<close>).
\<close>

definition sockMessage ::
  "(string \<Rightarrow> MessageStruct option) \<Rightarrow> ev_data \<Rightarrow> Veins \<Rightarrow> js_exception + Veins" where
  "sockMessage parse d s =
     (case d of
        Text t \<Rightarrow>
          if t = ''authorized'' then Inr (s\<lparr>close := False\<rparr>)
          else if t = ''pong'' then Inr s
          else (case parse t of
                  None \<Rightarrow> Inl SyntaxError
                | Some m \<Rightarrow> handleMsg m s)
      | Blob b \<Rightarrow> Inr (s\<lparr>readers := readers s @ [b]\<rparr>))"

definition reader_loadend ::
  "(string \<Rightarrow> MessageStruct option) \<Rightarrow> string \<Rightarrow> Veins \<Rightarrow> js_exception + Veins" where
  "reader_loadend parse b s =
     (case parse b of
        None \<Rightarrow> Inl SyntaxError
      | Some m \<Rightarrow> handleMsg m s)"

subsection \<open>\<open>_sockOpen\<close>\<close>

definition sockOpen :: "string \<Rightarrow> nat \<Rightarrow> Veins \<Rightarrow> js_exception + Veins" where
  "sockOpen tok sock s =
     WebSocket_send sock (Arr (Connect tok # map Track (Object_keys (keys s)))) s"

subsection \<open>\<open>subscribe\<close>\<close>

text \<open>
  For a name inherited from \<open>Object.prototype\<close> the test \<open>key in this.keys\<close> succeeds,
  and \<open>this.keys[key].push\<close> is not a function: \<open>TypeError\<close>, before anything is
  changed. Where \<open>send\<close> is called the socket's \<open>readyState\<close> is 1, so it does not raise.
  The returned handle only calls \<open>unsubscribe\<close> with the same arguments.
\<close>

definition subscribe :: "string \<Rightarrow> messageCallback \<Rightarrow> Veins \<Rightarrow> js_exception + Veins" where
  "subscribe k callback s =
     (case (if \<not> has_property k (keys s)
            then Inr (s\<lparr>keys := keys s @ [(k, [callback])]\<rparr>)
            else (case map_of (keys s) k of
                    Some cbs \<Rightarrow> Inr (s\<lparr>keys := AList.update k (cbs @ [callback]) (keys s)\<rparr>)
                  | None \<Rightarrow> Inl TypeError)) of
        Inl x \<Rightarrow> Inl x
      | Inr s1 \<Rightarrow>
          (case socket s1 of
             SockNull \<Rightarrow> Inr (Veins_open (s1\<lparr>socket := SockFalse\<rparr>))
           | SockFalse \<Rightarrow> Inr s1
           | Sock n \<Rightarrow>
               if readyState_of s1 n = OPEN
               then Inr (record_call (Send n (Obj (Track k))) s1)
               else Inr s1))"

subsection \<open>\<open>unsubscribe\<close>\<close>

text \<open>
  The loop over the callbacks of the key with the \<open>splice\<close> at the first match:
  \<open>None\<close> when the loop ends without a match, otherwise the list after \<open>splice(i, 1)\<close>.
\<close>

fun splice_first :: "messageCallback \<Rightarrow> messageCallback list \<Rightarrow> messageCallback list option" where
  "splice_first c [] = None"
| "splice_first c (f # fs) =
     (if c = f then Some fs else map_option ((#) f) (splice_first c fs))"

text \<open>
  For an inherited property of \<open>keys\<close> the loop finds no match: its \<open>length\<close> is a small
  number or undefined and none of its numbered properties exists, so \<open>false\<close> is returned.
\<close>

definition unsubscribe :: "string \<Rightarrow> messageCallback \<Rightarrow> Veins \<Rightarrow> bool \<times> Veins" where
  "unsubscribe k callback s =
     (if has_property k (keys s)
      then (case map_of (keys s) k of
              None \<Rightarrow> (False, s)
            | Some cbs \<Rightarrow>
                (case splice_first callback cbs of
                   None \<Rightarrow> (False, s)
                 | Some rest \<Rightarrow>
                     if length rest = 0
                     then
                       (let s1 = (case socket s of
                                    Sock n \<Rightarrow>
                                      if readyState_of s n = OPEN
                                      then record_call (Send n (Obj (Untrack k))) s
                                      else s
                                  | SockNull \<Rightarrow> s
                                  | SockFalse \<Rightarrow> s);
                            s2 = s1\<lparr>keys := AList.delete k (keys s1)\<rparr>
                        in if empty (keys s2)
                           then
                             (let s3 = (if ping s2 \<noteq> 0
                                        then (clearInterval (ping s2) s2)\<lparr>ping := 0\<rparr>
                                        else s2);
                                  s4 = s3\<lparr>close := True\<rparr>
                              in (True,
                                  case socket s4 of
                                    Sock n \<Rightarrow> WebSocket_close n 1000 ''nothing else to track'' s4
                                  | SockNull \<Rightarrow> s4
                                  | SockFalse \<Rightarrow> s4))
                           else (True, s2))
                     else (True, s\<lparr>keys := AList.update k rest (keys s)\<rparr>)))
      else (False, s))"

section \<open>The event loop\<close>

text \<open>
  What the host can do to the manager: a caller calls \<open>subscribe\<close> or \<open>unsubscribe\<close>, a
  token promise settles, a socket fires one of its events, a timer fires, a Blob reader
  finishes. An event that cannot occur in a state (no promise outstanding, the socket not
  in a state that fires the event, no such timer or reader) leaves the state as it is.
\<close>

datatype event =
    Subscribe string messageCallback
  | Unsubscribe string messageCallback
  | AuthFulfilled string
  | AuthRejected
  | SocketOpen nat
  | SocketMessage nat ev_data
  | SocketClose nat
  | TimerFires nat
  | LoadEnd

text \<open>
  \<open>handle\<close> gives the state the handler leaves, or the exception that escapes it
  together with the state at that moment: every method raises before it changes a field,
  so this is the state the method was entered with. The browser sets \<open>readyState\<close>
  before it fires the open and the close event; a timeout is removed from the active
  timers when it fires, a reader from the pending reads when it ends.
\<close>

definition raised_in :: "Veins \<Rightarrow> js_exception + Veins \<Rightarrow> (js_exception \<times> Veins) + Veins" where
  "raised_in s r = (case r of Inl x \<Rightarrow> Inl (x, s) | Inr s' \<Rightarrow> Inr s')"

definition handle ::
  "(string \<Rightarrow> MessageStruct option) \<Rightarrow> event \<Rightarrow> Veins \<Rightarrow> (js_exception \<times> Veins) + Veins" where
  "handle parse e s =
     (case e of
        Subscribe k c \<Rightarrow> raised_in s (subscribe k c s)
      | Unsubscribe k c \<Rightarrow> Inr (snd (unsubscribe k c s))
      | AuthFulfilled tok \<Rightarrow>
          if auth_pending s = 0 then Inr s
          else Inr (open_then tok (s\<lparr>auth_pending := auth_pending s - 1\<rparr>))
      | AuthRejected \<Rightarrow>
          if auth_pending s = 0 then Inr s
          else Inr (s\<lparr>auth_pending := auth_pending s - 1\<rparr>)
      | SocketOpen n \<Rightarrow>
          (case heap s n of
             None \<Rightarrow> Inr s
           | Some w \<Rightarrow>
               if readyState w = CONNECTING
               then raised_in (set_readyState n OPEN s)
                      (sockOpen (open_auth w) n (set_readyState n OPEN s))
               else Inr s)
      | SocketMessage n d \<Rightarrow>
          if readyState_of s n = OPEN \<or> readyState_of s n = CLOSING
          then raised_in s (sockMessage parse d s) else Inr s
      | SocketClose n \<Rightarrow>
          (case heap s n of
             None \<Rightarrow> Inr s
           | Some w \<Rightarrow>
               if readyState w = CLOSED then Inr s
               else Inr (sockClose (set_readyState n CLOSED s)))
      | TimerFires i \<Rightarrow>
          (case map_of (timers s) i of
             None \<Rightarrow> Inr s
           | Some (Interval ms) \<Rightarrow> raised_in s (ping_tick s)
           | Some (Timeout ms) \<Rightarrow> Inr (Veins_open (clearInterval i s)))
      | LoadEnd \<Rightarrow>
          (case readers s of
             [] \<Rightarrow> Inr s
           | b # bs \<Rightarrow>
               raised_in (s\<lparr>readers := bs\<rparr>) (reader_loadend parse b (s\<lparr>readers := bs\<rparr>))))"

text \<open>
  An exception that escapes a handler is reported by the host, and the event loop goes on
  from the state the handler left.
\<close>

definition step :: "(string \<Rightarrow> MessageStruct option) \<Rightarrow> event \<Rightarrow> Veins \<Rightarrow> Veins" where
  "step parse e s = (case handle parse e s of Inl (x, s') \<Rightarrow> s' | Inr s' \<Rightarrow> s')"

fun run :: "(string \<Rightarrow> MessageStruct option) \<Rightarrow> event list \<Rightarrow> Veins \<Rightarrow> Veins" where
  "run parse [] s = s"
| "run parse (e # es) s = run parse es (step parse e s)"

text \<open>
  A parser for the examples: it knows the three JSON texts below and rejects every other
  text, so it agrees with \<open>JSON.parse\<close> on the texts the examples use.
\<close>

definition example_parse :: "string \<Rightarrow> MessageStruct option" where
  \<open>example_parse t =
     (if t = ''{"key":"k","data":{"v":1}}''
      then Some \<lparr>msg_data = Some (JObj [(''v'', JNum 1)]), msg_error = None, msg_key = ''k''\<rparr>
      else if t = ''{"key":"constructor","data":{}}''
      then Some \<lparr>msg_data = Some (JObj []), msg_error = None, msg_key = ''constructor''\<rparr>
      else if t = ''{"key":"k","error":{"code":403,"msg":"nope"}}''
      then Some \<lparr>msg_data = None, msg_error = Some (ErrorStruct 403 ''nope''), msg_key = ''k''\<rparr>
      else None)\<close>

text \<open>A fresh instance after its first \<open>subscribe\<close>: the token fetch is outstanding.\<close>

definition example_pending :: Veins where
  "example_pending =
     step example_parse (Subscribe ''k'' 1) (Veins_new ''wss://host'' (Some 7) True)"

text \<open>
  The state used in the examples: one callback subscribed to \<open>k\<close>, the token fetched,
  the socket opened and authorized.
\<close>

definition example_open :: Veins where
  "example_open =
     run example_parse
       [Subscribe ''k'' 1, AuthFulfilled ''tok'', SocketOpen 0, SocketMessage 0 (Text ''authorized'')]
       (Veins_new ''wss://host'' (Some 7) True)"

section \<open>Notions used in the statements\<close>

text \<open>
  \<open>forget\<close> removes the error callback from an instance together with the calls made to
  it. \<open>track_or_open\<close>, \<open>send_untrack\<close> and \<open>teardown\<close> name three blocks of \<open>subscribe\<close>
  and \<open>unsubscribe\<close>: the branch on the socket after the callback is stored, the
  \<open>untrack\<close> frame, and the block entered when the registry has become empty
  (\<open>subscribe_eq\<close> and \<open>unsubscribe_eq\<close> below relate them to the methods).
\<close>

fun is_ErrorCb :: "effect \<Rightarrow> bool" where
  "is_ErrorCb (ErrorCb t) = True"
| "is_ErrorCb c = False"

definition forget :: "Veins \<Rightarrow> Veins" where
  "forget s = s\<lparr>error := None, calls := filter (\<lambda>c. \<not> is_ErrorCb c) (calls s)\<rparr>"

definition send_untrack :: "string \<Rightarrow> Veins \<Rightarrow> Veins" where
  "send_untrack k s =
     (case socket s of
        Sock n \<Rightarrow> if readyState_of s n = OPEN then record_call (Send n (Obj (Untrack k))) s else s
      | SockNull \<Rightarrow> s
      | SockFalse \<Rightarrow> s)"

definition teardown :: "Veins \<Rightarrow> Veins" where
  "teardown s =
     (let s3 = (if ping s \<noteq> 0 then (clearInterval (ping s) s)\<lparr>ping := 0\<rparr> else s);
          s4 = s3\<lparr>close := True\<rparr>
      in case socket s4 of
           Sock n \<Rightarrow> WebSocket_close n 1000 ''nothing else to track'' s4
         | SockNull \<Rightarrow> s4
         | SockFalse \<Rightarrow> s4)"

definition track_or_open :: "string \<Rightarrow> Veins \<Rightarrow> Veins" where
  "track_or_open k s1 =
     (case socket s1 of
        SockNull \<Rightarrow> Veins_open (s1\<lparr>socket := SockFalse\<rparr>)
      | SockFalse \<Rightarrow> s1
      | Sock n \<Rightarrow> if readyState_of s1 n = OPEN
                  then record_call (Send n (Obj (Track k))) s1 else s1)"

text \<open>
  The registry invariant: the own properties of \<open>keys\<close> have distinct names, none of
  them inherited from \<open>Object.prototype\<close>, and no callback list is empty.
  \<open>callbacks_of\<close> reads the list of a key (empty when the key is absent).
\<close>

definition registry_ok :: "(string \<times> messageCallback list) list \<Rightarrow> bool" where
  "registry_ok ks =
     (distinct (map fst ks) \<and>
      (\<forall>p\<in>set ks. snd p \<noteq> [] \<and> fst p \<notin> set Object_prototype_names))"

definition callbacks_of :: "string \<Rightarrow> (string \<times> messageCallback list) list \<Rightarrow> messageCallback list" where
  "callbacks_of k ks = (case map_of ks k of None \<Rightarrow> [] | Some cbs \<Rightarrow> cbs)"

text \<open>
  Following the specification: the live callbacks are the (key, callback) pairs that
  were subscribed and not unsubscribed since, in the order of their subscription.
  \<open>subscribe\<close> adds its pair, \<open>unsubscribe\<close> removes the first pair equal to its
  arguments, no other event touches them.
  \<open>live_of k\<close> lists the live callbacks of the key \<open>k\<close>; \<open>registry_matches\<close> says that
  the registry of the code holds exactly the live callbacks.
  \<open>subscribes_inherited_name\<close> singles out the calls of \<open>subscribe\<close> whose key is a
  property name of \<open>Object.prototype\<close>.
\<close>

fun spec_live_after :: "event \<Rightarrow> (string \<times> messageCallback) list \<Rightarrow> (string \<times> messageCallback) list" where
  "spec_live_after (Subscribe k c) L = L @ [(k, c)]"
| "spec_live_after (Unsubscribe k c) L = remove1 (k, c) L"
| "spec_live_after e L = L"

definition spec_live_callbacks :: "event list \<Rightarrow> (string \<times> messageCallback) list" where
  "spec_live_callbacks es = foldl (\<lambda>L e. spec_live_after e L) [] es"

definition live_of :: "string \<Rightarrow> (string \<times> messageCallback) list \<Rightarrow> messageCallback list" where
  "live_of k L = map snd (filter (\<lambda>p. fst p = k) L)"

definition registry_matches :: "(string \<times> messageCallback list) list \<Rightarrow> (string \<times> messageCallback) list \<Rightarrow> bool" where
  "registry_matches ks L = (registry_ok ks \<and> (\<forall>k. callbacks_of k ks = live_of k L))"

fun subscribes_inherited_name :: "event \<Rightarrow> bool" where
  "subscribes_inherited_name (Subscribe k c) = (k \<in> set Object_prototype_names)"
| "subscribes_inherited_name e = False"

text \<open>
  The keepalive timers are the active intervals. The timer invariant: timer ids are
  distinct, positive and below the next id to be handed out, and every active interval
  is the one whose id is stored in \<open>ping\<close>, with a period of 300000 ms.
\<close>

definition keepalive_timers :: "Veins \<Rightarrow> (nat \<times> timer) list" where
  "keepalive_timers s = filter (\<lambda>t. is_Interval (snd t)) (timers s)"

definition timers_ok :: "Veins \<Rightarrow> bool" where
  "timers_ok s =
     (distinct (map fst (timers s)) \<and> 0 < next_timer s \<and>
      (\<forall>t\<in>set (timers s).
         0 < fst t \<and> fst t < next_timer s \<and>
         (is_Interval (snd t) \<longrightarrow> fst t = ping s \<and> snd t = Interval 300000)))"

text \<open>
  The life cycle invariant. A socket that is not closed is the one in the socket field;
  at most one token fetch is outstanding; while one is outstanding, or while a reconnect
  timeout is pending, the socket field is not \<open>null\<close> and every socket is closed; and
  a fetch and a reconnect timeout are never pending together, nor two timeouts.
\<close>

definition all_closed :: "Veins \<Rightarrow> bool" where
  "all_closed s = (\<forall>n. readyState_of s n = CLOSED)"

definition only_intervals :: "Veins \<Rightarrow> bool" where
  "only_intervals s = (\<forall>t\<in>set (timers s). is_Interval (snd t))"

definition one_timeout :: "Veins \<Rightarrow> bool" where
  "one_timeout s =
     (\<forall>t\<in>set (timers s). \<forall>t'\<in>set (timers s).
        \<not> is_Interval (snd t) \<and> \<not> is_Interval (snd t') \<longrightarrow> fst t = fst t')"

definition current_only :: "Veins \<Rightarrow> bool" where
  "current_only s = (\<forall>n. readyState_of s n \<noteq> CLOSED \<longrightarrow> socket s = Sock n)"

definition lifecycle_ok :: "Veins \<Rightarrow> bool" where
  "lifecycle_ok s =
     (current_only s
      \<and> auth_pending s \<le> 1
      \<and> (0 < auth_pending s \<longrightarrow> socket s \<noteq> SockNull \<and> all_closed s \<and> only_intervals s)
      \<and> (\<not> only_intervals s \<longrightarrow> socket s \<noteq> SockNull \<and> all_closed s \<and> one_timeout s))"

section \<open>What the primitives leave unchanged\<close>

lemma record_call_unchanged [simp]:
  "close (record_call c s) = close s \<and>
   error (record_call c s) = error s \<and>
   keys (record_call c s) = keys s \<and>
   ping (record_call c s) = ping s \<and>
   socket (record_call c s) = socket s \<and>
   url (record_call c s) = url s \<and>
   has_WebSocket (record_call c s) = has_WebSocket s \<and>
   heap (record_call c s) = heap s \<and>
   next_sock (record_call c s) = next_sock s \<and>
   timers (record_call c s) = timers s \<and>
   next_timer (record_call c s) = next_timer s \<and>
   auth_pending (record_call c s) = auth_pending s \<and>
   readers (record_call c s) = readers s"
  by (simp add: record_call_def)

lemma record_call_calls [simp]: "calls (record_call c s) = calls s @ [c]"
  by (simp add: record_call_def)

lemma clearInterval_unchanged [simp]:
  "close (clearInterval i s) = close s \<and>
   error (clearInterval i s) = error s \<and>
   keys (clearInterval i s) = keys s \<and>
   ping (clearInterval i s) = ping s \<and>
   socket (clearInterval i s) = socket s \<and>
   url (clearInterval i s) = url s \<and>
   has_WebSocket (clearInterval i s) = has_WebSocket s \<and>
   heap (clearInterval i s) = heap s \<and>
   next_sock (clearInterval i s) = next_sock s \<and>
   next_timer (clearInterval i s) = next_timer s \<and>
   auth_pending (clearInterval i s) = auth_pending s \<and>
   readers (clearInterval i s) = readers s \<and>
   calls (clearInterval i s) = calls s"
  by (simp add: clearInterval_def)

lemma clearInterval_timers [simp]:
  "timers (clearInterval i s) = filter (\<lambda>t. fst t \<noteq> i) (timers s)"
  by (simp add: clearInterval_def)

lemma set_readyState_unchanged [simp]:
  "close (set_readyState n r s) = close s \<and>
   error (set_readyState n r s) = error s \<and>
   keys (set_readyState n r s) = keys s \<and>
   ping (set_readyState n r s) = ping s \<and>
   socket (set_readyState n r s) = socket s \<and>
   url (set_readyState n r s) = url s \<and>
   has_WebSocket (set_readyState n r s) = has_WebSocket s \<and>
   next_sock (set_readyState n r s) = next_sock s \<and>
   timers (set_readyState n r s) = timers s \<and>
   next_timer (set_readyState n r s) = next_timer s \<and>
   auth_pending (set_readyState n r s) = auth_pending s \<and>
   readers (set_readyState n r s) = readers s \<and>
   calls (set_readyState n r s) = calls s"
  by (simp add: set_readyState_def split: option.splits)

lemma WebSocket_close_unchanged [simp]:
  "close (WebSocket_close n code reason s) = close s \<and>
   error (WebSocket_close n code reason s) = error s \<and>
   keys (WebSocket_close n code reason s) = keys s \<and>
   ping (WebSocket_close n code reason s) = ping s \<and>
   socket (WebSocket_close n code reason s) = socket s \<and>
   url (WebSocket_close n code reason s) = url s \<and>
   has_WebSocket (WebSocket_close n code reason s) = has_WebSocket s \<and>
   next_sock (WebSocket_close n code reason s) = next_sock s \<and>
   timers (WebSocket_close n code reason s) = timers s \<and>
   next_timer (WebSocket_close n code reason s) = next_timer s \<and>
   auth_pending (WebSocket_close n code reason s) = auth_pending s \<and>
   readers (WebSocket_close n code reason s) = readers s"
  by (simp add: WebSocket_close_def Let_def)

lemma WebSocket_close_calls [simp]:
  "calls (WebSocket_close n code reason s) = calls s @ [CloseCall n code reason]"
  by (simp add: WebSocket_close_def Let_def)

lemma Veins_open_unchanged [simp]:
  "close (Veins_open  s) = close s \<and>
   error (Veins_open  s) = error s \<and>
   keys (Veins_open  s) = keys s \<and>
   ping (Veins_open  s) = ping s \<and>
   socket (Veins_open  s) = socket s \<and>
   url (Veins_open  s) = url s \<and>
   has_WebSocket (Veins_open  s) = has_WebSocket s \<and>
   heap (Veins_open  s) = heap s \<and>
   next_sock (Veins_open  s) = next_sock s \<and>
   timers (Veins_open  s) = timers s \<and>
   next_timer (Veins_open  s) = next_timer s \<and>
   readers (Veins_open  s) = readers s"
  by (simp add: Veins_open_def)

lemma Veins_open_calls [simp]:
  "calls (Veins_open s) = calls s @ [AuthCall] \<and> auth_pending (Veins_open s) = Suc (auth_pending s)"
  by (simp add: Veins_open_def)

lemma sockClose_expected:
  "close s \<Longrightarrow>
   sockClose s = (if ping s \<noteq> 0 then clearInterval (ping s) s else s)\<lparr>socket := SockNull\<rparr>"
  by (simp add: sockClose_def Let_def)

lemma map_of_has_property: "map_of obj k = Some v \<Longrightarrow> has_property k obj"
  by (auto simp: has_property_def dest: map_of_SomeD intro: rev_image_eqI)

lemmas method_defs =
  subscribe_def unsubscribe_def handleMsg_def sockMessage_def sockOpen_def sockClose_def
  open_then_def Veins_open_def ping_tick_def reader_loadend_def WSHelper_def
  WebSocket_send_def WebSocket_close_def setInterval_def setTimeout_def clearInterval_def
  record_call_def readyState_of_def set_readyState_def has_property_def empty_def

lemmas run_defs =
  step_def handle_def raised_in_def method_defs Veins_new_def Object_prototype_names_def
  Object_keys_def is_array_index_def is_digit_def

section \<open>The text of a number\<close>

lemmas Number_toString_defs =
  Number_toString_def positive_toString_def double_toString_def decimal_or_exponential_def
  exponential_def strip_zeros_def closest_of_def Number_value_def finite_value_def
  round_to_multiple_def ulp_of.simps nat_toString.simps

lemma Number_toString_403: "Number_toString 403 = ''403''"
  by (simp add: Number_toString_defs)

lemma Number_toString_500: "Number_toString 500 = ''500''"
  by (simp add: Number_toString_defs)

text \<open>
  An integer of magnitude below \<open>2^53\<close> is a double, and its text is its decimal numeral.
\<close>

lemma ulp_of_safe: "n < 9007199254740992 \<Longrightarrow> ulp_of n = 1"
  by (simp add: ulp_of.simps)

lemma Number_value_safe: "n < 9007199254740992 \<Longrightarrow> Number_value n = Some n"
  by (simp add: Number_value_def ulp_of_safe round_to_multiple_def finite_value_def)

lemma ulp_of_pos: "0 < ulp_of n"
  by (induction n rule: ulp_of.induct) (subst ulp_of.simps, simp)

lemma significand_large:
  "4503599627370496 \<le> n \<Longrightarrow> 4503599627370496 \<le> n div ulp_of n"
proof (induction n rule: ulp_of.induct)
  case (1 n)
  show ?case
  proof (cases "n < 9007199254740992")
    case True
    then show ?thesis using 1(2) by (simp add: ulp_of_safe)
  next
    case False
    then have "4503599627370496 \<le> n div 2" by simp
    with 1(1) False have "4503599627370496 \<le> n div 2 div ulp_of (n div 2)" by simp
    moreover have "ulp_of n = 2 * ulp_of (n div 2)"
      using False by (subst ulp_of.simps) simp
    ultimately show ?thesis by (simp add: div_mult2_eq)
  qed
qed

lemma ulp_of_unsafe: "9007199254740992 \<le> n \<Longrightarrow> 2 \<le> ulp_of n"
  using ulp_of_pos[of "n div 2"] by (subst ulp_of.simps) simp

lemma round_to_multiple_ge: "n div u * u \<le> round_to_multiple n u"
  by (simp add: round_to_multiple_def)

lemma Number_value_unsafe:
  assumes "9007199254740992 \<le> n" and "Number_value n = Some d"
  shows "9007199254740992 \<le> d"
proof -
  have "4503599627370496 \<le> n div ulp_of n" using assms(1) by (intro significand_large) simp
  moreover have "2 \<le> ulp_of n" using assms(1) by (rule ulp_of_unsafe)
  ultimately have "4503599627370496 * 2 \<le> n div ulp_of n * ulp_of n" by (rule mult_le_mono)
  then have "9007199254740992 \<le> round_to_multiple n (ulp_of n)"
    using round_to_multiple_ge[of n "ulp_of n"] by simp
  moreover have "d = round_to_multiple n (ulp_of n)"
    using assms(2) by (simp add: Number_value_def finite_value_def split: if_splits)
  ultimately show ?thesis by simp
qed

lemma Number_value_safe_iff:
  "d < 9007199254740992 \<Longrightarrow> Number_value c = Some d \<longleftrightarrow> c = d"
  using Number_value_safe[of c] Number_value_unsafe[of c d] Number_value_safe[of d]
  by (cases "c < 9007199254740992") auto

lemma closest_of_safe:
  "d < 9007199254740992 \<Longrightarrow> closest_of d lo p = Some c \<Longrightarrow> c = d"
  by (auto simp: closest_of_def Number_value_safe_iff split: if_splits)

lemma shortest_safe: "d < 9007199254740992 \<Longrightarrow> shortest d e = d"
  by (induction e) (auto dest: closest_of_safe split: option.splits)

lemma length_nat_toString: "n < 10 ^ Suc k \<Longrightarrow> length (nat_toString n) \<le> Suc k"
proof (induction k arbitrary: n)
  case 0
  then show ?case by (subst nat_toString.simps) simp
next
  case (Suc k)
  show ?case
  proof (cases "n < 10")
    case True
    then show ?thesis by (subst nat_toString.simps) simp
  next
    case False
    have "n div 10 < 10 ^ Suc k" using Suc.prems by simp
    then have "length (nat_toString (n div 10)) \<le> Suc k" by (rule Suc.IH)
    then show ?thesis using False by (subst nat_toString.simps) simp
  qed
qed

lemma positive_toString_safe:
  assumes "n < 9007199254740992"
  shows "positive_toString n = nat_toString n"
proof (cases "n = 0")
  case True
  then show ?thesis
    by (simp add: positive_toString_def Number_value_safe double_toString_def nat_toString.simps)
next
  case False
  have "n < 10 ^ Suc 15" using assms by simp
  then have "length (nat_toString n) \<le> Suc 15" by (rule length_nat_toString)
  then show ?thesis
    using assms False
    by (simp add: positive_toString_def Number_value_safe double_toString_def shortest_safe
          decimal_or_exponential_def)
qed

lemma Number_toString_safe:
  assumes "\<bar>i\<bar> < 9007199254740992"
  shows "Number_toString i =
           (if i < 0 then CHR ''-'' # nat_toString (nat (- i)) else nat_toString (nat i))"
  using assms by (simp add: Number_toString_def positive_toString_safe)

text \<open>
  From \<open>2^53\<close> on the text is not the decimal numeral of the integer that was written:
  \<open>2^53 + 1\<close> is read as the double \<open>2^53\<close>, \<open>2^60\<close> is printed with the 16 digits that
  identify the double, numerals of more than 21 digits get an exponent, and from
  \<open>2^1024\<close> on the number is \<open>Infinity\<close>.
\<close>

lemma Number_toString_2_53_1: "Number_toString 9007199254740993 = ''9007199254740992''"
  by (simp add: Number_toString_defs)

lemma Number_toString_2_60: "Number_toString 1152921504606846976 = ''1152921504606847000''"
  by (simp add: Number_toString_defs)

lemma Number_toString_10_21: "Number_toString 1000000000000000000000 = ''1e+21''"
  by (simp add: Number_toString_defs)

lemma Number_toString_closest: "Number_toString 73612742964500944 = ''73612742964500940''"
  by (simp add: Number_toString_defs)

lemma Number_toString_e29:
  "Number_toString (- 123456789012345678901234567890) = ''-1.2345678901234568e+29''"
  by (simp add: Number_toString_defs)

lemma Number_toString_Infinity: "Number_toString (2 ^ 1024) = ''Infinity''"
  by (simp add: Number_toString_defs)

section \<open>The examples as records\<close>

lemma example_pending_eq:
  "example_pending =
     \<lparr> close = True, error = Some 7, keys = [(''k'', [1])], ping = 0, socket = SockFalse,
       url = ''wss://host'', has_WebSocket = True, heap = (\<lambda>n. None), next_sock = 0,
       timers = [], next_timer = 1, auth_pending = 1, readers = [], calls = [AuthCall] \<rparr>"
  by (simp add: example_pending_def run_defs)

lemma example_open_eq:
  "example_open =
     \<lparr> close = False, error = Some 7, keys = [(''k'', [1])], ping = 1, socket = Sock 0,
       url = ''wss://host'', has_WebSocket = True,
       heap = (\<lambda>n. None)(0 \<mapsto> \<lparr>ws_url = ''wss://host'', readyState = OPEN, open_auth = ''tok''\<rparr>),
       next_sock = 1, timers = [(1, Interval 300000)], next_timer = 2, auth_pending = 0,
       readers = [], calls = [AuthCall, Send 0 (Arr [Connect ''tok'', Track ''k''])] \<rparr>"
  by (simp add: example_open_def run_defs)

section \<open>Server-reported errors\<close>

text \<open>
  Claim C5, as amended. For every inbound message whose \<open>error\<close> field is present (an
  object with an integer \<open>code\<close> and a string \<open>msg\<close>), \<open>handleMsg\<close> returns normally;
  when an error callback was supplied it is called exactly once, with the text
  \<open>Websocket failed: <msg> (<code>)\<close>, the code written as the language writes the
  number (\<open>Number_toString\<close>: the decimal numeral for a code of magnitude below \<open>2^53\<close>,
  by \<open>Number_toString_safe\<close>; \<open>2^60\<close> is written \<open>1152921504606847000\<close>), and nothing
  else is called or changed, so no callback of the message's key runs; when none was
  supplied nothing happens at all.
\<close>

theorem handleMsg_error_report:
  assumes "msg_error m = Some e"
  shows "handleMsg m s =
      Inr (case error s of
             Some f \<Rightarrow>
               s\<lparr>calls := calls s @
                   [ErrorCb (''Websocket failed: '' @ err_msg e @ '' ('' @
                             Number_toString (err_code e) @ '')'')]\<rparr>
           | None \<Rightarrow> s)"
  using assms by (simp add: handleMsg_def record_call_def split: option.splits)

theorem handleMsg_error_report_witness:
  "handleMsg \<lparr>msg_data = None, msg_error = Some (ErrorStruct 500 ''boom''), msg_key = ''k''\<rparr>
     ((Veins_new ''wss://host'' (Some 7) True)\<lparr>keys := [(''k'', [1, 2])]\<rparr>)
   = Inr ((Veins_new ''wss://host'' (Some 7) True)
            \<lparr>keys := [(''k'', [1, 2])], calls := [ErrorCb ''Websocket failed: boom (500)'']\<rparr>)"
  using handleMsg_error_report
    [of "\<lparr>msg_data = None, msg_error = Some (ErrorStruct 500 ''boom''), msg_key = ''k''\<rparr>"
        "ErrorStruct 500 ''boom''"
        "(Veins_new ''wss://host'' (Some 7) True)\<lparr>keys := [(''k'', [1, 2])]\<rparr>"]
  by (simp add: Veins_new_def Number_toString_500)

text \<open>
  The claim as stated fails on its own example: for \<open>{key:"k", error:{code:403,
  msg:"nope"}}\<close> the error callback receives \<open>Websocket failed: nope (403)\<close>, not
  \<open>nope (403)\<close>.
\<close>

theorem handleMsg_error_format_counterexample:
  "handleMsg \<lparr>msg_data = None, msg_error = Some (ErrorStruct 403 ''nope''), msg_key = ''k''\<rparr>
     (Veins_new ''wss://host'' (Some 7) True)
   = Inr ((Veins_new ''wss://host'' (Some 7) True)
            \<lparr>calls := [ErrorCb ''Websocket failed: nope (403)'']\<rparr>)
   \<and> handleMsg \<lparr>msg_data = None, msg_error = Some (ErrorStruct 403 ''nope''), msg_key = ''k''\<rparr>
     (Veins_new ''wss://host'' (Some 7) True)
   \<noteq> Inr ((Veins_new ''wss://host'' (Some 7) True)\<lparr>calls := [ErrorCb ''nope (403)'']\<rparr>)"
  by (simp add: handleMsg_def Veins_new_def record_call_def Number_toString_403)

section \<open>Subscribing to a key that is already registered\<close>

text \<open>
  Claim C2, as amended. When the key already has callbacks and the socket is open
  (\<open>readyState\<close> 1), \<open>subscribe\<close> appends the callback to the key's list and sends one
  more \<open>track\<close> frame for the key; nothing else is sent or changed.
\<close>

theorem subscribe_known_key_while_open:
  assumes "map_of (keys s) k = Some cbs" and "socket s = Sock n" and "readyState_of s n = OPEN"
  shows "subscribe k cb s =
     Inr (s\<lparr>keys := AList.update k (cbs @ [cb]) (keys s),
            calls := calls s @ [Send n (Obj (Track k))]\<rparr>)"
  using assms map_of_has_property[OF assms(1)]
  by (simp add: subscribe_def record_call_def readyState_of_def)

theorem subscribe_known_key_while_open_witness:
  "subscribe ''k'' 2 example_open =
     Inr (example_open\<lparr>keys := [(''k'', [1, 2])],
            calls := [AuthCall, Send 0 (Arr [Connect ''tok'', Track ''k'']),
                      Send 0 (Obj (Track ''k''))]\<rparr>)"
  using subscribe_known_key_while_open [of example_open "''k''" "[1]" 0 2]
  by (simp add: example_open_eq readyState_of_def)

text \<open>
  The claim as stated fails: the second callback for \<open>k\<close> on an open socket makes a
  second \<open>track\<close> frame for \<open>k\<close>.
\<close>

theorem subscribe_second_callback_counterexample:
  "calls (step example_parse (Subscribe ''k'' 2) example_open) =
     calls example_open @ [Send 0 (Obj (Track ''k''))]
   \<and> keys (step example_parse (Subscribe ''k'' 2) example_open) = [(''k'', [1, 2])]"
  by (simp add: example_open_eq step_def handle_def raised_in_def subscribe_def has_property_def
        readyState_of_def record_call_def)

section \<open>Dispatch of data messages\<close>

lemma handleMsg_registered_key:
  assumes "msg_error m = None" and "map_of (keys s) (msg_key m) = Some cbs"
  shows "handleMsg m s = Inr (s\<lparr>calls := calls s @ map (\<lambda>f. Invoke f (msg_data m)) cbs\<rparr>)"
  using assms map_of_has_property[OF assms(2)] by (simp add: handleMsg_def)

lemma handleMsg_unknown_key:
  assumes "msg_error m = None" and "msg_key m \<notin> fst ` set (keys s)"
    and "msg_key m \<notin> set Object_prototype_names"
  shows "handleMsg m s = Inr s"
  using assms by (simp add: handleMsg_def has_property_def)

lemma handleMsg_inherited_key:
  assumes "msg_error m = None" and "msg_key m \<notin> fst ` set (keys s)"
    and "msg_key m \<in> set Object_prototype_names"
  shows "handleMsg m s = Inl TypeError"
proof -
  have "map_of (keys s) (msg_key m) = None"
    using assms(2) by (simp add: map_of_eq_None_iff)
  then show ?thesis
    using assms(1,3) by (simp add: handleMsg_def has_property_def)
qed

text \<open>
  The example of the specification: with two callbacks registered for \<open>k\<close>, the frame
  \<open>{"key":"k","data":{"v":1}}\<close> calls both, in registration order, each with \<open>{v:1}\<close>.
\<close>

lemma handleMsg_example_two_callbacks:
  \<open>handle example_parse (SocketMessage 0 (Text ''{"key":"k","data":{"v":1}}''))
     (example_open\<lparr>keys := [(''k'', [1, 2])]\<rparr>)
   = Inr (example_open
           \<lparr>keys := [(''k'', [1, 2])],
            calls := [AuthCall, Send 0 (Arr [Connect ''tok'', Track ''k'']),
                      Invoke 1 (Some (JObj [(''v'', JNum 1)])),
                      Invoke 2 (Some (JObj [(''v'', JNum 1)]))]\<rparr>)\<close>
  by (simp add: example_open_eq handle_def raised_in_def sockMessage_def example_parse_def
        handleMsg_def has_property_def readyState_of_def)

text \<open>
  Claim C8 at its failing input. A message without \<open>error\<close> whose key is registered is
  passed to the key's callbacks in registration order (\<open>handleMsg_registered_key\<close>), and
  one whose key is neither registered nor a property name of \<open>Object.prototype\<close> is
  dropped (\<open>handleMsg_unknown_key\<close>). But for the unknown key \<open>constructor\<close> the test
  \<open>msg.key in _this.keys\<close> succeeds on the inherited property, and the loop over it raises
  \<open>TypeError\<close>, which escapes the message hook.
\<close>

theorem handleMsg_inherited_key_raises:
  \<open>handle example_parse (SocketMessage 0 (Text ''{"key":"constructor","data":{}}'')) example_open
     = Inl (TypeError, example_open)\<close>
  by (simp add: example_open_eq handle_def raised_in_def sockMessage_def example_parse_def
        handleMsg_def has_property_def Object_prototype_names_def readyState_of_def)

section \<open>Frames that are not JSON\<close>

text \<open>
  Claim C9, as amended. For every inbound text frame that is neither \<open>authorized\<close> nor
  \<open>pong\<close> and is not JSON, the \<open>SyntaxError\<close> of \<open>JSON.parse\<close> leaves \<open>_sockMessage\<close>
  uncaught: the error callback is not called, no callback is called, and no field of the
  manager changes, so the frames that follow are handled as if this one had not come.
\<close>

theorem malformed_text_frame_raises:
  assumes "t \<noteq> ''authorized''" and "t \<noteq> ''pong''" and "parse t = None"
  shows "sockMessage parse (Text t) s = Inl SyntaxError
       \<and> step parse (SocketMessage n (Text t)) s = s
       \<and> (readyState_of s n = OPEN \<longrightarrow>
            handle parse (SocketMessage n (Text t)) s = Inl (SyntaxError, s))"
  using assms by (simp add: sockMessage_def step_def handle_def raised_in_def)

theorem malformed_text_frame_raises_witness:
  "sockMessage example_parse (Text ''{oops'') example_pending = Inl SyntaxError
   \<and> step example_parse (SocketMessage 0 (Text ''{oops'')) example_pending = example_pending"
  using malformed_text_frame_raises [of "''{oops''" example_parse example_pending 0]
  by (simp add: example_parse_def)

text \<open>
  The claim as stated fails: the parse failure of the frame \<open>{oops\<close> escapes the message
  hook of an open socket, and nothing has been reported to the error callback.
\<close>

theorem malformed_text_frame_counterexample:
  "handle example_parse (SocketMessage 0 (Text ''{oops'')) example_open
     = Inl (SyntaxError, example_open)
   \<and> calls example_open = [AuthCall, Send 0 (Arr [Connect ''tok'', Track ''k''])]"
  by (simp add: example_open_eq handle_def raised_in_def sockMessage_def example_parse_def
        readyState_of_def)

section \<open>Removing the last subscription\<close>

lemma unsubscribe_last:
  assumes "keys s = [(k, [cb])]"
  shows "unsubscribe k cb s =
    (True,
     (let s1 = (case socket s of
                  Sock n \<Rightarrow> if readyState_of s n = OPEN
                            then record_call (Send n (Obj (Untrack k))) s else s
                | SockNull \<Rightarrow> s | SockFalse \<Rightarrow> s);
          s2 = s1\<lparr>keys := []\<rparr>;
          s3 = (if ping s2 \<noteq> 0 then (clearInterval (ping s2) s2)\<lparr>ping := 0\<rparr> else s2);
          s4 = s3\<lparr>close := True\<rparr>
      in case socket s4 of
           Sock n \<Rightarrow> WebSocket_close n 1000 ''nothing else to track'' s4
         | SockNull \<Rightarrow> s4 | SockFalse \<Rightarrow> s4))"
proof -
  have own: "has_property k [(k, [cb])]" by (simp add: has_property_def)
  show ?thesis
    unfolding unsubscribe_def
    by (cases "socket s") (simp_all add: own assms empty_def Let_def)
qed

lemma set_readyState_heap:
  "heap (set_readyState n r s) m =
     (if m = n then map_option (\<lambda>w. w\<lparr>readyState := r\<rparr>) (heap s n) else heap s m)"
  by (simp add: set_readyState_def split: option.splits)

lemma WebSocket_close_heap:
  "heap (WebSocket_close n code reason s) m =
     (if m = n \<and> (readyState_of s n = CONNECTING \<or> readyState_of s n = OPEN)
      then map_option (\<lambda>w. w\<lparr>readyState := CLOSING\<rparr>) (heap s n) else heap s m)"
  by (simp add: WebSocket_close_def Let_def set_readyState_heap readyState_of_def record_call_def)

lemma step_SocketClose:
  "heap s n = Some w \<Longrightarrow> readyState w \<noteq> CLOSED \<Longrightarrow>
   step parse (SocketClose n) s = sockClose (set_readyState n CLOSED s)"
  by (simp add: step_def handle_def)

text \<open>
  Claim C6. When \<open>unsubscribe\<close> removes the only callback of the only key, it returns
  \<open>true\<close>, sends \<open>untrack\<close> exactly when the socket is open, deletes the key, cancels the
  keepalive timer and resets its id, sets \<open>close\<close>, and calls \<open>close(1000, 'nothing else
  to track')\<close> on the socket when there is one. The close event that follows on a socket
  that was not closed yet sets the socket field to \<open>null\<close>, adds no timer (no reconnect)
  and sends nothing.
\<close>

theorem unsubscribe_last_key_closes:
  assumes "keys s = [(k, [cb])]"
  shows "let r = unsubscribe k cb s; s' = snd r in
     fst r \<and> keys s' = [] \<and> ping s' = 0 \<and> close s'
     \<and> timers s' = (if ping s \<noteq> 0 then filter (\<lambda>t. fst t \<noteq> ping s) (timers s) else timers s)
     \<and> calls s' = calls s @
          (case socket s of
             Sock n \<Rightarrow> (if readyState_of s n = OPEN then [Send n (Obj (Untrack k))] else [])
                        @ [CloseCall n 1000 ''nothing else to track'']
           | SockNull \<Rightarrow> []
           | SockFalse \<Rightarrow> [])
     \<and> socket s' = socket s
     \<and> (\<forall>n. socket s = Sock n \<and> readyState_of s n \<noteq> CLOSED \<longrightarrow>
           (let s'' = step parse (SocketClose n) s' in
              socket s'' = SockNull \<and> timers s'' = timers s' \<and> calls s'' = calls s'
              \<and> keys s'' = [] \<and> readyState_of s'' n = CLOSED))"
proof (cases "socket s")
  case SockNull
  then show ?thesis
    unfolding unsubscribe_last[OF assms] by (simp add: Let_def)
next
  case SockFalse
  then show ?thesis
    unfolding unsubscribe_last[OF assms] by (simp add: Let_def)
next
  case (Sock n)
  show ?thesis
  proof (cases "readyState_of s n = CLOSED")
    case True
    with Sock show ?thesis
      unfolding unsubscribe_last[OF assms] by (simp add: Let_def)
  next
    case False
    then obtain w where w: "heap s n = Some w" "readyState w \<noteq> CLOSED"
      by (auto simp: readyState_of_def split: option.splits)
    define s' where "s' = snd (unsubscribe k cb s)"
    define s0 where
      "s0 = (if readyState_of s n = OPEN then record_call (Send n (Obj (Untrack k))) s else s)
              \<lparr>keys := []\<rparr>"
    have s': "s' = WebSocket_close n 1000 ''nothing else to track''
        ((if ping s \<noteq> 0 then (clearInterval (ping s) s0)\<lparr>ping := 0\<rparr> else s0)\<lparr>close := True\<rparr>)"
      unfolding s'_def s0_def unsubscribe_last[OF assms] using Sock by (simp add: Let_def)
    have "\<exists>w'. heap s' n = Some w' \<and> readyState w' \<noteq> CLOSED"
      using w by (auto simp: s' s0_def WebSocket_close_heap readyState_of_def)
    then obtain w' where w': "heap s' n = Some w'" "readyState w' \<noteq> CLOSED" by blast
    have f: "close s'" "ping s' = 0" "keys s' = []" by (simp_all add: s' s0_def)
    have st: "step parse (SocketClose n) s' = (set_readyState n CLOSED s')\<lparr>socket := SockNull\<rparr>"
      using step_SocketClose[OF w'] f by (simp add: sockClose_expected)
    have after: "socket (step parse (SocketClose n) s') = SockNull"
      "timers (step parse (SocketClose n) s') = timers s'"
      "calls (step parse (SocketClose n) s') = calls s'"
      "keys (step parse (SocketClose n) s') = []"
      "readyState_of (step parse (SocketClose n) s') n = CLOSED"
      using w' f by (simp_all add: st readyState_of_def set_readyState_heap)
    have before: "fst (unsubscribe k cb s)"
      "timers s' = (if ping s \<noteq> 0 then filter (\<lambda>t. fst t \<noteq> ping s) (timers s) else timers s)"
      "calls s' = calls s @ (if readyState_of s n = OPEN then [Send n (Obj (Untrack k))] else [])
                        @ [CloseCall n 1000 ''nothing else to track'']"
      "socket s' = socket s"
      by (simp_all add: s' s0_def unsubscribe_last[OF assms])
    show ?thesis
      using before after f Sock unfolding Let_def s'_def[symmetric] by simp
  qed
qed

theorem unsubscribe_last_key_closes_witness:
  "fst (unsubscribe ''k'' 1 example_open)
   \<and> keys (snd (unsubscribe ''k'' 1 example_open)) = []
   \<and> ping (snd (unsubscribe ''k'' 1 example_open)) = 0
   \<and> close (snd (unsubscribe ''k'' 1 example_open))
   \<and> timers (snd (unsubscribe ''k'' 1 example_open)) = []
   \<and> calls (snd (unsubscribe ''k'' 1 example_open)) =
       [AuthCall, Send 0 (Arr [Connect ''tok'', Track ''k'']), Send 0 (Obj (Untrack ''k'')),
        CloseCall 0 1000 ''nothing else to track'']
   \<and> socket (step example_parse (SocketClose 0) (snd (unsubscribe ''k'' 1 example_open))) = SockNull
   \<and> timers (step example_parse (SocketClose 0) (snd (unsubscribe ''k'' 1 example_open))) = []"
  using unsubscribe_last_key_closes [of example_open "''k''" 1 example_parse]
  by (simp add: example_open_eq Let_def readyState_of_def)

section \<open>Reconnecting after an unexpected close\<close>

lemma sockClose_abnormal:
  "\<not> close s \<Longrightarrow>
   sockClose s =
     (if ping s \<noteq> 0 then clearInterval (ping s) s else s)
       \<lparr>close := True,
        timers := (if ping s \<noteq> 0 then filter (\<lambda>t. fst t \<noteq> ping s) (timers s) else timers s)
                  @ [(next_timer s, Timeout 5000)],
        next_timer := Suc (next_timer s)\<rparr>"
  by (simp add: sockClose_def Let_def setTimeout_def clearInterval_def)

lemma set_Object_keys: "set (Object_keys obj) = fst ` set obj"
  by (auto simp: Object_keys_def)

lemma distinct_Object_keys: "distinct (map fst obj) \<Longrightarrow> distinct (Object_keys obj)"
  by (auto simp: Object_keys_def)

lemma length_Object_keys: "length (Object_keys obj) = length obj"
  unfolding Object_keys_def
  using sum_length_filter_compl[of is_array_index "map fst obj"] by simp

lemma step_SocketOpen:
  assumes "heap s n = Some w" and "readyState w = CONNECTING"
  shows "step parse (SocketOpen n) s =
     (set_readyState n OPEN s)
       \<lparr>calls := calls s @
          [Send n (Arr (Connect (open_auth w) # map Track (Object_keys (keys s))))]\<rparr>"
  using assms
  by (simp add: step_def handle_def raised_in_def sockOpen_def WebSocket_send_def readyState_of_def
        set_readyState_heap record_call_def)

lemma step_Timeout:
  assumes "map_of (timers s) i = Some (Timeout ms)"
  shows "step parse (TimerFires i) s = Veins_open (clearInterval i s)"
  using assms by (simp add: step_def handle_def)

lemma open_then_supported:
  assumes "has_WebSocket s"
  shows "open_then tok s =
    (let s2 = s\<lparr>heap := (heap s)(next_sock s \<mapsto>
                       \<lparr>ws_url = url s, readyState = CONNECTING, open_auth = tok\<rparr>),
                 next_sock := Suc (next_sock s), socket := Sock (next_sock s)\<rparr>
     in if ping s = 0
        then s2\<lparr>timers := timers s @ [(next_timer s, Interval 300000)],
                next_timer := Suc (next_timer s), ping := next_timer s\<rparr>
        else s2)"
  using assms by (simp add: open_then_def WSHelper_def setInterval_def Let_def)

lemma step_AuthFulfilled:
  "0 < auth_pending s \<Longrightarrow>
   step parse (AuthFulfilled tok) s = open_then tok (s\<lparr>auth_pending := auth_pending s - 1\<rparr>)"
  by (simp add: step_def handle_def)

lemma map_of_snoc_fresh: "k \<notin> fst ` set xs \<Longrightarrow> map_of (xs @ [(k, v)]) k = Some v"
  by (induction xs) auto

text \<open>
  Claim C1. In a state with \<open>close\<close> false (whatever the registry holds), the close
  hook adds exactly one timer, a timeout of 5000 ms, and sets \<open>close\<close>. When that timeout
  fires \<open>_open\<close> calls the token provider; when the token arrives a new socket is made;
  and on its open event exactly one \<open>send\<close> is made on the new socket, with an array
  holding the \<open>connect\<close> message with that token followed by one \<open>track\<close> message for each
  key of the registry (\<open>Object.keys\<close> lists every key, and each once since the keys of
  the registry are distinct). The last conjunct is the open event in any state: the keys
  sent are those registered at that moment. The hypothesis on the timer ids says that
  ids are handed out in increasing order.
\<close>

theorem reconnect_after_unexpected_close:
  assumes "\<not> close s" and "\<forall>t\<in>set (timers s). fst t < next_timer s" and "has_WebSocket s"
  shows "let s1 = sockClose s;
             s2 = step parse (TimerFires (next_timer s)) s1;
             s3 = step parse (AuthFulfilled tok) s2;
             s4 = step parse (SocketOpen (next_sock s)) s3
         in timers s1 =
              (if ping s \<noteq> 0 then filter (\<lambda>t. fst t \<noteq> ping s) (timers s) else timers s)
              @ [(next_timer s, Timeout 5000)]
          \<and> close s1 \<and> calls s1 = calls s \<and> keys s1 = keys s
          \<and> calls s2 = calls s @ [AuthCall] \<and> keys s2 = keys s
          \<and> socket s3 = Sock (next_sock s) \<and> readyState_of s3 (next_sock s) = CONNECTING
          \<and> calls s3 = calls s @ [AuthCall] \<and> keys s3 = keys s
          \<and> calls s4 = calls s @
               [AuthCall,
                Send (next_sock s) (Arr (Connect tok # map Track (Object_keys (keys s))))]
          \<and> set (Object_keys (keys s)) = fst ` set (keys s)
          \<and> length (Object_keys (keys s)) = length (keys s)
          \<and> (distinct (map fst (keys s)) \<longrightarrow> distinct (Object_keys (keys s)))
          \<and> (heap u m = Some w \<and> readyState w = CONNECTING \<longrightarrow>
               calls (step parse (SocketOpen m) u) = calls u @
                 [Send m (Arr (Connect (open_auth w) # map Track (Object_keys (keys u))))])"
proof -
  define s1 where "s1 = sockClose s"
  define s2 where "s2 = step parse (TimerFires (next_timer s)) s1"
  define s3 where "s3 = step parse (AuthFulfilled tok) s2"
  define s4 where "s4 = step parse (SocketOpen (next_sock s)) s3"
  have s1: "timers s1 =
              (if ping s \<noteq> 0 then filter (\<lambda>t. fst t \<noteq> ping s) (timers s) else timers s)
              @ [(next_timer s, Timeout 5000)]"
     "close s1" "calls s1 = calls s" "keys s1 = keys s" "has_WebSocket s1"
     "next_sock s1 = next_sock s" "url s1 = url s" "heap s1 = heap s"
    using assms(1,3) by (simp_all add: s1_def sockClose_abnormal)
  have fresh: "next_timer s \<notin> fst ` set (timers s)"
    using assms(2) by auto
  have fresh': "next_timer s \<notin> fst ` set (filter (\<lambda>t. fst t \<noteq> ping s) (timers s))"
    using assms(2) by auto
  have look: "map_of (timers s1) (next_timer s) = Some (Timeout 5000)"
    unfolding s1(1) using map_of_snoc_fresh[OF fresh] map_of_snoc_fresh[OF fresh']
    by (simp del: map_of_append)
  have s2e: "s2 = Veins_open (clearInterval (next_timer s) s1)"
    unfolding s2_def by (rule step_Timeout[OF look])
  have s2: "calls s2 = calls s @ [AuthCall]" "keys s2 = keys s" "0 < auth_pending s2"
     "has_WebSocket s2" "next_sock s2 = next_sock s" "url s2 = url s" "heap s2 = heap s"
    by (simp_all add: s2e s1)
  have s3e: "s3 = open_then tok (s2\<lparr>auth_pending := auth_pending s2 - 1\<rparr>)"
    unfolding s3_def by (rule step_AuthFulfilled[OF s2(3)])
  have s3: "socket s3 = Sock (next_sock s)" "calls s3 = calls s @ [AuthCall]" "keys s3 = keys s"
    "heap s3 (next_sock s) = Some \<lparr>ws_url = url s, readyState = CONNECTING, open_auth = tok\<rparr>"
    using s2 by (simp_all add: s3e open_then_supported Let_def)
  have s4e: "s4 = (set_readyState (next_sock s) OPEN s3)
       \<lparr>calls := calls s3 @
          [Send (next_sock s) (Arr (Connect tok # map Track (Object_keys (keys s3))))]\<rparr>"
    unfolding s4_def using step_SocketOpen[OF s3(4), of parse] by simp
  have s4: "calls s4 = calls s @
               [AuthCall,
                Send (next_sock s) (Arr (Connect tok # map Track (Object_keys (keys s))))]"
    by (simp add: s4e s3)
  have r3: "readyState_of s3 (next_sock s) = CONNECTING"
    by (simp add: readyState_of_def s3)
  have any: "heap u m = Some w \<and> readyState w = CONNECTING \<longrightarrow>
               calls (step parse (SocketOpen m) u) = calls u @
                 [Send m (Arr (Connect (open_auth w) # map Track (Object_keys (keys u))))]"
    by (simp add: step_SocketOpen)
  show ?thesis
    unfolding Let_def s1_def[symmetric] s2_def[symmetric] s3_def[symmetric] s4_def[symmetric]
    using s1 s2 s3 s4 r3 length_Object_keys[of "keys s"] set_Object_keys[of "keys s"]
      distinct_Object_keys[of "keys s"] any
    by simp
qed

theorem reconnect_after_unexpected_close_witness:
  "timers (sockClose example_open) = [(2, Timeout 5000)]
   \<and> calls (step example_parse (SocketOpen 1)
        (step example_parse (AuthFulfilled ''tok2'')
          (step example_parse (TimerFires 2) (sockClose example_open)))) =
       [AuthCall, Send 0 (Arr [Connect ''tok'', Track ''k'']),
        AuthCall, Send 1 (Arr [Connect ''tok2'', Track ''k''])]"
  using reconnect_after_unexpected_close [of example_open example_parse "''tok2''"]
  by (simp add: example_open_eq Let_def Object_keys_def is_array_index_def is_digit_def)

section \<open>The methods in terms of their blocks\<close>

lemma has_property_map_of_None:
  "\<not> has_property k obj \<Longrightarrow> map_of obj k = None"
  by (simp add: has_property_def map_of_eq_None_iff)

lemma unsubscribe_eq:
  "unsubscribe k c s =
     (case map_of (keys s) k of
        None \<Rightarrow> (False, s)
      | Some cbs \<Rightarrow>
          (case splice_first c cbs of
             None \<Rightarrow> (False, s)
           | Some rest \<Rightarrow>
               if rest = []
               then (if AList.delete k (keys s) = []
                     then (True, teardown ((send_untrack k s)\<lparr>keys := []\<rparr>))
                     else (True, (send_untrack k s)\<lparr>keys := AList.delete k (keys s)\<rparr>))
               else (True, s\<lparr>keys := AList.update k rest (keys s)\<rparr>)))"
proof (cases "map_of (keys s) k")
  case None
  then show ?thesis by (simp add: unsubscribe_def)
next
  case (Some cbs)
  note hp = map_of_has_property[OF Some]
  note found = Some
  show ?thesis
  proof (cases "splice_first c cbs")
    case None
    with found hp show ?thesis by (simp add: unsubscribe_def)
  next
    case (Some rest)
    have k: "keys (send_untrack k s) = keys s"
      by (simp add: send_untrack_def split: socket_ref.splits)
    show ?thesis
    proof (cases "rest = []")
      case False
      with found Some hp show ?thesis by (simp add: unsubscribe_def)
    next
      case True
      have "unsubscribe k c s =
          (let s2 = (send_untrack k s)\<lparr>keys := AList.delete k (keys (send_untrack k s))\<rparr>
           in if empty (keys s2) then (True, teardown s2) else (True, s2))"
        using found Some hp True
        unfolding unsubscribe_def send_untrack_def teardown_def Let_def
        by simp
      then show ?thesis
        using found Some True by (simp add: k Let_def empty_def)
    qed
  qed
qed


lemma subscribe_eq:
  "subscribe k c s =
     (if \<not> has_property k (keys s)
      then Inr (track_or_open k (s\<lparr>keys := keys s @ [(k, [c])]\<rparr>))
      else (case map_of (keys s) k of
              Some cbs \<Rightarrow> Inr (track_or_open k (s\<lparr>keys := AList.update k (cbs @ [c]) (keys s)\<rparr>))
            | None \<Rightarrow> Inl TypeError))"
  by (simp add: subscribe_def track_or_open_def split: option.splits socket_ref.splits)

lemma forget_fields [simp]:
  "close (forget s) = close s" "error (forget s) = None" "keys (forget s) = keys s"
  "ping (forget s) = ping s" "socket (forget s) = socket s" "url (forget s) = url s"
  "has_WebSocket (forget s) = has_WebSocket s" "heap (forget s) = heap s"
  "next_sock (forget s) = next_sock s" "timers (forget s) = timers s"
  "next_timer (forget s) = next_timer s" "auth_pending (forget s) = auth_pending s"
  "readers (forget s) = readers s"
  "calls (forget s) = filter (\<lambda>c. \<not> is_ErrorCb c) (calls s)"
  by (simp_all add: forget_def)

lemma readyState_of_forget [simp]: "readyState_of (forget s) n = readyState_of s n"
  by (simp add: readyState_of_def)

lemma readyState_of_upd [simp]:
  "readyState_of (s\<lparr>keys := ks\<rparr>) n = readyState_of s n"
  "readyState_of (s\<lparr>socket := so\<rparr>) n = readyState_of s n"
  "readyState_of (s\<lparr>ping := p\<rparr>) n = readyState_of s n"
  "readyState_of (s\<lparr>close := b\<rparr>) n = readyState_of s n"
  "readyState_of (s\<lparr>auth_pending := a\<rparr>) n = readyState_of s n"
  "readyState_of (s\<lparr>readers := r\<rparr>) n = readyState_of s n"
  "readyState_of (s\<lparr>calls := cs\<rparr>) n = readyState_of s n"
  "readyState_of (record_call c s) n = readyState_of s n"
  "readyState_of (clearInterval i s) n = readyState_of s n"
  by (simp_all add: readyState_of_def)

lemma forget_push [simp]:
  "forget (s\<lparr>keys := ks\<rparr>) = (forget s)\<lparr>keys := ks\<rparr>"
  "forget (s\<lparr>socket := so\<rparr>) = (forget s)\<lparr>socket := so\<rparr>"
  "forget (s\<lparr>ping := p\<rparr>) = (forget s)\<lparr>ping := p\<rparr>"
  "forget (s\<lparr>close := b\<rparr>) = (forget s)\<lparr>close := b\<rparr>"
  "forget (s\<lparr>auth_pending := a\<rparr>) = (forget s)\<lparr>auth_pending := a\<rparr>"
  "forget (s\<lparr>readers := r\<rparr>) = (forget s)\<lparr>readers := r\<rparr>"
  "forget (clearInterval i s) = clearInterval i (forget s)"
  "forget (set_readyState n r' s) = set_readyState n r' (forget s)"
  "forget (Veins_open s) = Veins_open (forget s)"
  "forget (WebSocket_close n code reason s) = WebSocket_close n code reason (forget s)"
  by (simp_all add: forget_def clearInterval_def set_readyState_def Veins_open_def record_call_def
        WebSocket_close_def readyState_of_def Let_def split: option.splits)

lemma forget_record_call [simp]:
  "forget (record_call c s) = (if is_ErrorCb c then forget s else record_call c (forget s))"
  by (simp add: forget_def record_call_def)

lemma forget_track_or_open [simp]: "forget (track_or_open k s) = track_or_open k (forget s)"
  by (simp add: track_or_open_def split: socket_ref.splits)

lemma forget_send_untrack [simp]: "forget (send_untrack k s) = send_untrack k (forget s)"
  by (simp add: send_untrack_def split: socket_ref.splits)

lemma forget_teardown [simp]: "forget (teardown s) = teardown (forget s)"
  by (simp add: teardown_def Let_def split: socket_ref.splits)

lemma forget_subscribe: "subscribe k c (forget s) = map_sum id forget (subscribe k c s)"
  by (simp add: subscribe_eq split: option.splits)

lemma forget_unsubscribe: "unsubscribe k c (forget s) = map_prod id forget (unsubscribe k c s)"
  by (simp add: unsubscribe_eq split: option.splits)

lemma forget_open_then: "open_then tok (forget s) = forget (open_then tok s)"
  by (simp add: open_then_def WSHelper_def setInterval_def forget_def record_call_def Let_def
        split: option.splits)

lemma forget_sockClose: "sockClose (forget s) = forget (sockClose s)"
  by (simp add: sockClose_def setTimeout_def forget_def clearInterval_def Let_def)

lemma forget_WebSocket_send:
  "WebSocket_send n p (forget s) = map_sum id forget (WebSocket_send n p s)"
  by (simp add: WebSocket_send_def)

lemma forget_handleMsg: "handleMsg m (forget s) = map_sum id forget (handleMsg m s)"
  by (simp add: handleMsg_def forget_def record_call_def split: option.splits)

lemma forget_sockMessage:
  "sockMessage parse d (forget s) = map_sum id forget (sockMessage parse d s)"
  by (simp add: sockMessage_def forget_handleMsg split: ev_data.splits option.splits)

lemma forget_reader_loadend:
  "reader_loadend parse b (forget s) = map_sum id forget (reader_loadend parse b s)"
  by (simp add: reader_loadend_def forget_handleMsg split: option.splits)

lemma forget_sockOpen: "sockOpen tok n (forget s) = map_sum id forget (sockOpen tok n s)"
  by (simp add: sockOpen_def forget_WebSocket_send)

lemma forget_ping_tick: "ping_tick (forget s) = map_sum id forget (ping_tick s)"
  by (simp add: ping_tick_def forget_WebSocket_send split: socket_ref.splits)

lemma raised_in_forget:
  "raised_in (forget s) (map_sum id forget r) = map_sum (map_prod id forget) forget (raised_in s r)"
  by (simp add: raised_in_def split: sum.splits)

lemma forget_handle:
  "handle parse e (forget s) = map_sum (map_prod id forget) forget (handle parse e s)"
proof (cases e)
  case (Subscribe k c)
  then show ?thesis by (simp add: handle_def forget_subscribe raised_in_forget)
next
  case (Unsubscribe k c)
  then show ?thesis by (simp add: handle_def forget_unsubscribe)
next
  case (AuthFulfilled tok)
  then show ?thesis
    using forget_open_then[of tok "s\<lparr>auth_pending := auth_pending s - 1\<rparr>"]
    by (simp add: handle_def)
next
  case AuthRejected
  then show ?thesis by (simp add: handle_def)
next
  case (SocketOpen n)
  then show ?thesis
    using raised_in_forget[of "set_readyState n OPEN s"] forget_sockOpen[of _ n "set_readyState n OPEN s"]
    by (simp add: handle_def split: option.splits)
next
  case (SocketMessage n d)
  then show ?thesis by (simp add: handle_def forget_sockMessage raised_in_forget)
next
  case (SocketClose n)
  then show ?thesis 
    using forget_sockClose[of "set_readyState n CLOSED s"]
    by (simp add: handle_def split: option.splits)
next
  case (TimerFires i)
  then show ?thesis
    by (simp add: handle_def forget_ping_tick raised_in_forget split: option.splits timer.splits)
next
  case LoadEnd
  then show ?thesis
    by (simp add: handle_def forget_push(6)[symmetric] forget_reader_loadend raised_in_forget
          del: forget_push split: list.splits)
qed

lemma forget_step: "step parse e (forget s) = forget (step parse e s)"
  by (simp add: step_def forget_handle split: sum.splits prod.splits)

lemma forget_run: "run parse es (forget s) = forget (run parse es s)"
  by (induction es arbitrary: s) (simp_all add: forget_step)

text \<open>
  Claim C10. The error callback is read at two places only, the \<open>false\<close> result of
  \<open>WSHelper\<close> in \<open>_open\<close> and the \<open>error\<close> field of a message in \<open>handleMsg\<close>, and both
  are guarded: without a callback the first only sets the socket field to \<open>false\<close>
  (\<open>WSHelper\<close> itself has written to the console) and the second does nothing. For
  every event the handler of an instance without the callback raises exactly when the
  handler of the same instance with it raises, with the same exception, and leaves the
  same state up to the calls of the callback; so an instance constructed without the
  callback goes through the same states as one constructed with it, and never calls it.
\<close>

theorem missing_error_callback_only_drops_reports:
  "handle parse e (forget s) = map_sum (map_prod id forget) forget (handle parse e s)
   \<and> run parse es (Veins_new u None ws) = forget (run parse es (Veins_new u err ws))
   \<and> (\<forall>c\<in>set (calls (run parse es (Veins_new u None ws))). \<not> is_ErrorCb c)
   \<and> (error s = None \<and> msg_error m = Some x \<longrightarrow> handleMsg m s = Inr s)
   \<and> (error s = None \<and> \<not> has_WebSocket s \<longrightarrow>
        open_then tok s =
          (record_call (ConsoleError ''websocket: WebSockets not supported'') s)
            \<lparr>socket := SockFalse\<rparr>)"
proof -
  have new: "forget (Veins_new u err ws) = Veins_new u None ws"
    by (simp add: forget_def Veins_new_def)
  have same: "run parse es (Veins_new u None ws) = forget (run parse es (Veins_new u err ws))"
    using forget_run[of parse es "Veins_new u err ws"] by (simp add: new)
  have none: "\<forall>c\<in>set (calls (run parse es (Veins_new u None ws))). \<not> is_ErrorCb c"
    unfolding same by simp
  have site1: "error s = None \<and> msg_error m = Some x \<longrightarrow> handleMsg m s = Inr s"
    by (simp add: handleMsg_def)
  have site2: "error s = None \<and> \<not> has_WebSocket s \<longrightarrow>
        open_then tok s =
          (record_call (ConsoleError ''websocket: WebSockets not supported'') s)
            \<lparr>socket := SockFalse\<rparr>"
    by (simp add: open_then_def WSHelper_def Let_def)
  show ?thesis
    using forget_handle same none site1 site2 by blast
qed

theorem missing_error_callback_only_drops_reports_witness:
  "run example_parse [Subscribe ''k'' 1, AuthFulfilled ''tok'']
       (Veins_new ''wss://host'' None False)
     = forget (run example_parse [Subscribe ''k'' 1, AuthFulfilled ''tok'']
                 (Veins_new ''wss://host'' (Some 7) False))
   \<and> calls (run example_parse [Subscribe ''k'' 1, AuthFulfilled ''tok'']
              (Veins_new ''wss://host'' (Some 7) False))
       = [AuthCall, ConsoleError ''websocket: WebSockets not supported'',
          ErrorCb ''Websockets not supported'']
   \<and> calls (run example_parse [Subscribe ''k'' 1, AuthFulfilled ''tok'']
              (Veins_new ''wss://host'' None False))
       = [AuthCall, ConsoleError ''websocket: WebSockets not supported'']"
  using missing_error_callback_only_drops_reports
    [of example_parse _ _ "[Subscribe ''k'' 1, AuthFulfilled ''tok'']" "''wss://host''" False "Some 7"]
  by (simp add: run_defs)

section \<open>The registry and the live callbacks\<close>

lemma keys_track_or_open [simp]: "keys (track_or_open k s) = keys s"
  by (simp add: track_or_open_def split: socket_ref.splits)

lemma keys_send_untrack [simp]: "keys (send_untrack k s) = keys s"
  by (simp add: send_untrack_def split: socket_ref.splits)

lemma keys_teardown [simp]: "keys (teardown s) = keys s"
  by (simp add: teardown_def Let_def split: socket_ref.splits)

lemma keys_open_then [simp]: "keys (open_then tok s) = keys s"
  by (simp add: open_then_def WSHelper_def setInterval_def Let_def split: option.splits)

lemma keys_sockClose [simp]: "keys (sockClose s) = keys s"
  by (simp add: sockClose_def setTimeout_def Let_def)

lemma keys_WebSocket_send: "WebSocket_send n p s = Inr s' \<Longrightarrow> keys s' = keys s"
  by (auto simp: WebSocket_send_def split: if_splits)

lemma keys_handleMsg: "handleMsg m s = Inr s' \<Longrightarrow> keys s' = keys s"
  by (auto simp: handleMsg_def split: option.splits if_splits)

lemma keys_handle:
  "handle parse e s = Inr s' \<Longrightarrow> (\<forall>k c. e \<noteq> Subscribe k c \<and> e \<noteq> Unsubscribe k c) \<Longrightarrow> keys s' = keys s"
  by (cases e)
     (auto simp: handle_def raised_in_def sockOpen_def sockMessage_def reader_loadend_def ping_tick_def
        dest: keys_WebSocket_send keys_handleMsg
        split: option.splits if_splits sum.splits socket_ref.splits timer.splits ev_data.splits list.splits)

lemma keys_handle_raised:
  "handle parse e s = Inl (x, s') \<Longrightarrow> keys s' = keys s"
  by (cases e)
     (auto simp: handle_def raised_in_def
        split: option.splits if_splits sum.splits timer.splits list.splits)

lemma keys_step_other:
  "(\<forall>k c. e \<noteq> Subscribe k c \<and> e \<noteq> Unsubscribe k c) \<Longrightarrow> keys (step parse e s) = keys s"
  by (auto simp: step_def dest: keys_handle keys_handle_raised split: sum.splits)


lemma live_of_snoc: "live_of k (L @ [(k', c)]) = (if k' = k then live_of k L @ [c] else live_of k L)"
  by (simp add: live_of_def)

lemma live_of_remove1:
  "live_of k' (remove1 (k, c) L) = (if k' = k then remove1 c (live_of k L) else live_of k' L)"
  by (induction L) (auto simp: live_of_def)

lemma splice_first_remove1:
  "splice_first c cbs = (if c \<in> set cbs then Some (remove1 c cbs) else None)"
  by (induction cbs) auto

lemma callbacks_of_snoc:
  "k \<notin> fst ` set ks \<Longrightarrow>
   callbacks_of k' (ks @ [(k, v)]) = (if k' = k then v else callbacks_of k' ks)"
proof -
  assume "k \<notin> fst ` set ks"
  then have "map_of ks k = None" by (simp add: map_of_eq_None_iff)
  then show ?thesis by (simp add: callbacks_of_def map_add_def split: option.splits)
qed

lemma callbacks_of_update:
  "callbacks_of k' (AList.update k v ks) = (if k' = k then v else callbacks_of k' ks)"
  by (simp add: callbacks_of_def update_conv')

lemma callbacks_of_delete:
  "callbacks_of k' (AList.delete k ks) = (if k' = k then [] else callbacks_of k' ks)"
  by (simp add: callbacks_of_def delete_conv')

lemma set_update_subset: "set (AList.update k v ks) \<subseteq> insert (k, v) (set ks)"
  by (induction ks) auto

lemma registry_ok_snoc:
  "registry_ok ks \<Longrightarrow> k \<notin> fst ` set ks \<Longrightarrow> k \<notin> set Object_prototype_names \<Longrightarrow>
   registry_ok (ks @ [(k, [c])])"
  by (auto simp: registry_ok_def)

lemma registry_ok_update:
  "registry_ok ks \<Longrightarrow> v \<noteq> [] \<Longrightarrow> k \<notin> set Object_prototype_names \<Longrightarrow>
   registry_ok (AList.update k v ks)"
  using set_update_subset[of k v ks]
  by (auto simp: registry_ok_def distinct_update)

lemma registry_ok_delete: "registry_ok ks \<Longrightarrow> registry_ok (AList.delete k ks)"
proof -
  assume ok: "registry_ok ks"
  have "set (AList.delete k ks) \<subseteq> set ks" by (auto simp: AList.delete_eq)
  then show ?thesis
    using ok distinct_delete[of ks k] unfolding registry_ok_def by blast
qed

lemma registry_ok_present:
  "registry_ok ks \<Longrightarrow> (k \<in> fst ` set ks) = (callbacks_of k ks \<noteq> [])"
proof -
  assume ok: "registry_ok ks"
  show ?thesis
  proof (cases "map_of ks k")
    case None
    then have "k \<notin> fst ` set ks" by (simp add: map_of_eq_None_iff)
    with None show ?thesis by (simp add: callbacks_of_def)
  next
    case (Some cbs)
    then have "(k, cbs) \<in> set ks" by (rule map_of_SomeD)
    then have "cbs \<noteq> []" "k \<in> fst ` set ks"
      using ok by (auto simp: registry_ok_def intro: rev_image_eqI)
    then show ?thesis using Some by (simp add: callbacks_of_def)
  qed
qed

lemma registry_ok_not_inherited:
  "registry_ok ks \<Longrightarrow> map_of ks k = Some cbs \<Longrightarrow> k \<notin> set Object_prototype_names"
  by (auto simp: registry_ok_def dest!: map_of_SomeD)

lemma matches_subscribe:
  assumes "registry_matches (keys s) L" and np: "k \<notin> set Object_prototype_names"
  shows "registry_matches (keys (step parse (Subscribe k c) s)) (spec_live_after (Subscribe k c) L)"
proof -
  have ok: "registry_ok (keys s)" and eq: "\<And>k'. callbacks_of k' (keys s) = live_of k' L"
    using assms by (simp_all add: registry_matches_def)
  show ?thesis
  proof (cases "map_of (keys s) k")
    case (Some cbs)
    have cb: "callbacks_of k (keys s) = cbs" using Some by (simp add: callbacks_of_def)
    have "keys (step parse (Subscribe k c) s) = AList.update k (cbs @ [c]) (keys s)"
      using Some map_of_has_property[OF Some]
      by (simp add: step_def handle_def raised_in_def subscribe_eq)
    then show ?thesis
      using np ok eq cb
      by (auto simp: registry_matches_def registry_ok_update callbacks_of_update live_of_snoc)
  next
    case None
    then have nin: "k \<notin> fst ` set (keys s)" by (simp add: map_of_eq_None_iff)
    have empty: "live_of k L = []" using eq[of k] None by (simp add: callbacks_of_def)
    have "keys (step parse (Subscribe k c) s) = keys s @ [(k, [c])]"
      using nin np by (simp add: step_def handle_def raised_in_def subscribe_eq has_property_def)
    then show ?thesis
      using np ok eq nin empty
      by (auto simp: registry_matches_def registry_ok_snoc callbacks_of_snoc live_of_snoc)
  qed
qed

lemma matches_unsubscribe:
  assumes "registry_matches (keys s) L"
  shows "registry_matches (keys (step parse (Unsubscribe k c) s)) (spec_live_after (Unsubscribe k c) L)"
proof -
  have ok: "registry_ok (keys s)" and eq: "\<And>k'. callbacks_of k' (keys s) = live_of k' L"
    using assms by (simp_all add: registry_matches_def)
  have st: "step parse (Unsubscribe k c) s = snd (unsubscribe k c s)"
    by (simp add: step_def handle_def)
  have absent: "c \<notin> set (live_of k L) \<Longrightarrow> remove1 (k, c) L = L"
    by (rule remove1_idem) (force simp: live_of_def)
  show ?thesis
  proof (cases "map_of (keys s) k")
    case None
    then have "live_of k L = []" using eq[of k] by (simp add: callbacks_of_def)
    then have "remove1 (k, c) L = L" using absent by simp
    then show ?thesis using None assms by (simp add: st unsubscribe_eq)
  next
    case (Some cbs)
    have np: "k \<notin> set Object_prototype_names" by (rule registry_ok_not_inherited[OF ok Some])
    have cb: "live_of k L = cbs" using eq[of k] Some by (simp add: callbacks_of_def)
    show ?thesis
    proof (cases "c \<in> set cbs")
      case False
      then have "remove1 (k, c) L = L" using absent cb by simp
      then show ?thesis using Some False assms by (simp add: st unsubscribe_eq splice_first_remove1)
    next
      case True
      show ?thesis
      proof (cases "remove1 c cbs = []")
        case False
        then have "keys (step parse (Unsubscribe k c) s) = AList.update k (remove1 c cbs) (keys s)"
          using Some True by (simp add: st unsubscribe_eq splice_first_remove1)
        then show ?thesis
          using False np ok eq cb
          by (auto simp: registry_matches_def registry_ok_update callbacks_of_update live_of_remove1)
      next
        case e: True
        then have "keys (step parse (Unsubscribe k c) s) = AList.delete k (keys s)"
          using Some True by (simp add: st unsubscribe_eq splice_first_remove1)
        then show ?thesis
          using e ok eq cb
          by (auto simp: registry_matches_def registry_ok_delete callbacks_of_delete live_of_remove1)
      qed
    qed
  qed
qed

lemma matches_step:
  assumes "registry_matches (keys s) L" and "\<not> subscribes_inherited_name e"
  shows "registry_matches (keys (step parse e s)) (spec_live_after e L)"
proof (cases e)
  case (Subscribe k c)
  then show ?thesis using matches_subscribe[OF assms(1), of k parse c] assms(2) by simp
next
  case (Unsubscribe k c)
  then show ?thesis using matches_unsubscribe[OF assms(1), of parse k c] by simp
qed (use assms(1) in \<open>simp_all add: keys_step_other\<close>)

lemma matches_run:
  "registry_matches (keys s) L \<Longrightarrow> \<forall>e\<in>set es. \<not> subscribes_inherited_name e \<Longrightarrow>
   registry_matches (keys (run parse es s)) (foldl (\<lambda>L e. spec_live_after e L) L es)"
  by (induction es arbitrary: s L) (simp_all add: matches_step)

lemma live_keys: "fst ` set L = {k. live_of k L \<noteq> []}"
  by (force simp: live_of_def filter_empty_conv)

text \<open>
  As long as no \<open>subscribe\<close> is called with a property name of \<open>Object.prototype\<close>, the
  registry follows the specification: after any sequence of events from the constructor
  (calls of \<open>subscribe\<close> and \<open>unsubscribe\<close> in any order, interleaved with any events of the
  socket, the timers and the token provider), the list stored for a key is the list of
  its live callbacks in subscription order, the keys of the registry are exactly the keys
  that have a live callback, and a key is an own property of the registry if and only if
  its callback list is non-empty.
\<close>

lemma registry_matches_live_callbacks:
  assumes "\<forall>e\<in>set es. \<not> subscribes_inherited_name e"
  shows "registry_matches (keys (run parse es (Veins_new u err ws))) (spec_live_callbacks es)"
proof -
  have "registry_matches (keys (Veins_new u err ws)) []"
    by (simp add: registry_matches_def registry_ok_def Veins_new_def callbacks_of_def live_of_def)
  from matches_run[OF this assms, of parse]
  show ?thesis by (simp add: spec_live_callbacks_def)
qed

lemma registry_keys_without_inherited_names:
  assumes "\<forall>e\<in>set es. \<not> subscribes_inherited_name e"
  shows "fst ` set (keys (run parse es (Veins_new u err ws))) = fst ` set (spec_live_callbacks es)"
    and "k \<in> fst ` set (keys (run parse es (Veins_new u err ws))) \<longleftrightarrow>
         (\<exists>cbs. map_of (keys (run parse es (Veins_new u err ws))) k = Some cbs \<and> cbs \<noteq> [])"
proof -
  define s where "s = run parse es (Veins_new u err ws)"
  have m: "registry_matches (keys s) (spec_live_callbacks es)"
    unfolding s_def by (rule registry_matches_live_callbacks[OF assms])
  then have ok: "registry_ok (keys s)"
    and eq: "\<And>k. callbacks_of k (keys s) = live_of k (spec_live_callbacks es)"
    by (simp_all add: registry_matches_def)
  show "fst ` set (keys (run parse es (Veins_new u err ws))) = fst ` set (spec_live_callbacks es)"
    unfolding s_def[symmetric] using registry_ok_present[OF ok] eq by (auto simp: live_keys)
  show "k \<in> fst ` set (keys (run parse es (Veins_new u err ws))) \<longleftrightarrow>
         (\<exists>cbs. map_of (keys (run parse es (Veins_new u err ws))) k = Some cbs \<and> cbs \<noteq> [])"
    unfolding s_def[symmetric]
    using registry_ok_present[OF ok, of k] by (auto simp: callbacks_of_def split: option.splits)
qed

text \<open>
  Claim C7 at its failing input. The specification lets \<open>subscribe\<close> register a callback
  under any key. On a new instance \<open>subscribe('toString', cb)\<close> finds the inherited
  property with \<open>key in this.keys\<close>, and \<open>this.keys[key].push\<close> is not a function: the
  call raises \<open>TypeError\<close> and stores nothing. After the call the key \<open>toString\<close> has a
  live callback, and the registry has no key at all.
\<close>

theorem subscribe_inherited_key_registers_nothing:
  "handle parse (Subscribe ''toString'' 4) (Veins_new u err ws)
     = Inl (TypeError, Veins_new u err ws)
   \<and> keys (run parse [Subscribe ''toString'' 4] (Veins_new u err ws)) = []
   \<and> spec_live_callbacks [Subscribe ''toString'' 4] = [(''toString'', 4)]
   \<and> fst ` set (keys (run parse [Subscribe ''toString'' 4] (Veins_new u err ws)))
       \<noteq> fst ` set (spec_live_callbacks [Subscribe ''toString'' 4])"
  by (simp add: step_def handle_def raised_in_def subscribe_def has_property_def
        Object_prototype_names_def Veins_new_def spec_live_callbacks_def)

section \<open>The keepalive timer\<close>

lemma timers_ok_cong:
  "timers s' = timers s \<Longrightarrow> ping s' = ping s \<Longrightarrow> next_timer s' = next_timer s \<Longrightarrow>
   timers_ok s' = timers_ok s"
  by (simp add: timers_ok_def)

lemma timers_ok_clear: "timers_ok s \<Longrightarrow> timers_ok (clearInterval i s)"
  by (auto simp: timers_ok_def distinct_map_filter)

lemma timers_ok_clear_ping:
  "timers_ok s \<Longrightarrow> timers_ok ((clearInterval (ping s) s)\<lparr>ping := p\<rparr>)"
  by (auto simp: timers_ok_def distinct_map_filter)

lemma timers_ok_no_interval:
  "timers_ok s \<Longrightarrow> ping s = 0 \<Longrightarrow> keepalive_timers s = []"
  by (auto simp: timers_ok_def keepalive_timers_def filter_empty_conv)

lemma keepalive_clear_ping:
  "timers_ok s \<Longrightarrow> keepalive_timers (clearInterval (ping s) s) = []"
  by (auto simp: timers_ok_def keepalive_timers_def filter_empty_conv)

lemma timers_ok_track_or_open: "timers_ok (track_or_open k s) = timers_ok s"
  by (rule timers_ok_cong) (simp_all add: track_or_open_def split: socket_ref.splits)

lemma timers_ok_send_untrack: "timers_ok (send_untrack k s) = timers_ok s"
  by (rule timers_ok_cong) (simp_all add: send_untrack_def split: socket_ref.splits)

lemma timers_ok_keys: "timers_ok (s\<lparr>keys := ks\<rparr>) = timers_ok s"
  by (rule timers_ok_cong) simp_all

lemma timers_ok_teardown: "timers_ok s \<Longrightarrow> timers_ok (teardown s)"
proof -
  assume ok: "timers_ok s"
  define s3 where "s3 = (if ping s \<noteq> 0 then (clearInterval (ping s) s)\<lparr>ping := 0\<rparr> else s)"
  have "timers_ok s3" using ok timers_ok_clear_ping[OF ok, of 0] by (simp add: s3_def)
  moreover have "timers_ok (teardown s) = timers_ok s3"
    by (rule timers_ok_cong) (simp_all add: teardown_def s3_def Let_def split: socket_ref.splits)
  ultimately show ?thesis by simp
qed

lemma timers_ok_subscribe: "timers_ok s \<Longrightarrow> subscribe k c s = Inr s' \<Longrightarrow> timers_ok s'"
  by (auto simp: subscribe_eq timers_ok_track_or_open timers_ok_keys split: if_splits option.splits)

lemma timers_ok_unsubscribe: "timers_ok s \<Longrightarrow> timers_ok (snd (unsubscribe k c s))"
  by (auto simp: unsubscribe_eq timers_ok_send_untrack timers_ok_keys
        intro!: timers_ok_teardown split: option.splits)

lemma timers_ok_open_then: "timers_ok s \<Longrightarrow> timers_ok (open_then tok s)"
proof (cases "has_WebSocket s")
  case False
  assume "timers_ok s"
  moreover have "timers_ok (open_then tok s) = timers_ok s"
    using False
    by (intro timers_ok_cong) (simp_all add: open_then_def WSHelper_def Let_def split: option.splits)
  ultimately show ?thesis by simp
next
  case True
  assume ok: "timers_ok s"
  show ?thesis
  proof (cases "ping s = 0")
    case False
    have "timers_ok (open_then tok s) = timers_ok s"
      using False True by (intro timers_ok_cong) (simp_all add: open_then_supported Let_def)
    then show ?thesis using ok by simp
  next
    case p0: True
    have "\<forall>t\<in>set (timers s). \<not> is_Interval (snd t)"
      using ok p0 by (auto simp: timers_ok_def)
    then show ?thesis
      using ok p0 True
      by (auto simp: timers_ok_def open_then_supported Let_def)
  qed
qed

lemma timers_ok_sockClose: "timers_ok s \<Longrightarrow> timers_ok (sockClose s)"
proof -
  assume ok: "timers_ok s"
  define s1 where "s1 = (if ping s \<noteq> 0 then clearInterval (ping s) s else s)"
  have ok1: "timers_ok s1" using ok by (simp add: s1_def timers_ok_clear)
  have sc: "sockClose s = (if close s1 then s1\<lparr>socket := SockNull\<rparr>
                             else snd (setTimeout 5000 (s1\<lparr>close := True\<rparr>)))"
    by (simp add: sockClose_def s1_def Let_def)
  show ?thesis
  proof (cases "close s1")
    case True
    have "timers_ok (s1\<lparr>socket := SockNull\<rparr>) = timers_ok s1"
      by (rule timers_ok_cong) simp_all
    then show ?thesis using True ok1 sc by simp
  next
    case False
    have "timers_ok (snd (setTimeout 5000 (s1\<lparr>close := True\<rparr>)))"
      using ok1 by (auto simp: timers_ok_def setTimeout_def)
    then show ?thesis using False sc by simp
  qed
qed


lemma same_timers_WebSocket_send:
  "WebSocket_send n p s = Inr s' \<Longrightarrow>
   timers s' = timers s \<and> ping s' = ping s \<and> next_timer s' = next_timer s"
  by (auto simp: WebSocket_send_def split: if_splits)

lemma same_timers_handleMsg:
  "handleMsg m s = Inr s' \<Longrightarrow>
   timers s' = timers s \<and> ping s' = ping s \<and> next_timer s' = next_timer s"
  by (auto simp: handleMsg_def split: option.splits if_splits)

lemma same_timers_sockMessage:
  "sockMessage parse d s = Inr s' \<Longrightarrow>
   timers s' = timers s \<and> ping s' = ping s \<and> next_timer s' = next_timer s"
  by (auto simp: sockMessage_def dest: same_timers_handleMsg
        split: ev_data.splits option.splits if_splits)

lemma timers_ok_raised_in:
  assumes "timers_ok s"
    and "\<And>s'. r = Inr s' \<Longrightarrow>
           timers s' = timers s \<and> ping s' = ping s \<and> next_timer s' = next_timer s"
  shows "case raised_in s r of Inl (x, s') \<Rightarrow> timers_ok s' | Inr s' \<Rightarrow> timers_ok s'"
proof (cases r)
  case (Inl x)
  then show ?thesis using assms(1) by (simp add: raised_in_def)
next
  case (Inr s')
  then have "timers_ok s' = timers_ok s" using assms(2) by (intro timers_ok_cong) simp_all
  then show ?thesis using Inr assms(1) by (simp add: raised_in_def)
qed

lemma same_timers_ping_tick:
  "ping_tick s = Inr s' \<Longrightarrow>
   timers s' = timers s \<and> ping s' = ping s \<and> next_timer s' = next_timer s"
  by (auto simp: ping_tick_def dest: same_timers_WebSocket_send split: socket_ref.splits)

lemma same_timers_reader_loadend:
  "reader_loadend parse b s = Inr s' \<Longrightarrow>
   timers s' = timers s \<and> ping s' = ping s \<and> next_timer s' = next_timer s"
  by (auto simp: reader_loadend_def dest: same_timers_handleMsg split: option.splits)

lemma timers_ok_handle:
  assumes "timers_ok s"
  shows "case handle parse e s of Inl (x, s') \<Rightarrow> timers_ok s' | Inr s' \<Rightarrow> timers_ok s'"
proof (cases e)
  case (Subscribe k c)
  then show ?thesis
    using assms timers_ok_subscribe[OF assms, of k c]
    by (auto simp: handle_def raised_in_def split: sum.splits)
next
  case (Unsubscribe k c)
  then show ?thesis using timers_ok_unsubscribe[OF assms] by (simp add: handle_def)
next
  case (AuthFulfilled tok)
  have "timers_ok (s\<lparr>auth_pending := auth_pending s - 1\<rparr>)"
    using assms timers_ok_cong[of "s\<lparr>auth_pending := auth_pending s - 1\<rparr>" s] by simp
  then show ?thesis
    using AuthFulfilled assms by (simp add: handle_def timers_ok_open_then)
next
  case AuthRejected
  have "timers_ok (s\<lparr>auth_pending := auth_pending s - 1\<rparr>)"
    using assms timers_ok_cong[of "s\<lparr>auth_pending := auth_pending s - 1\<rparr>" s] by simp
  then show ?thesis using AuthRejected assms by (simp add: handle_def)
next
  case (SocketOpen n)
  have r: "timers_ok (set_readyState n OPEN s)"
    using assms timers_ok_cong[of "set_readyState n OPEN s" s] by simp
  have "case raised_in (set_readyState n OPEN s) (sockOpen tok n (set_readyState n OPEN s)) of
          Inl (x, s') \<Rightarrow> timers_ok s' | Inr s' \<Rightarrow> timers_ok s'" for tok
    by (rule timers_ok_raised_in[OF r]) (auto simp: sockOpen_def dest: same_timers_WebSocket_send)
  then show ?thesis
    using SocketOpen assms by (simp add: handle_def split: option.splits)
next
  case (SocketMessage n d)
  have "case raised_in s (sockMessage parse d s) of
          Inl (x, s') \<Rightarrow> timers_ok s' | Inr s' \<Rightarrow> timers_ok s'"
    by (rule timers_ok_raised_in[OF assms]) (auto dest: same_timers_sockMessage)
  then show ?thesis
    using SocketMessage assms by (simp add: handle_def)
next
  case (SocketClose n)
  have r: "timers_ok (set_readyState n CLOSED s)"
    using assms timers_ok_cong[of "set_readyState n CLOSED s" s] by simp
  show ?thesis
    using SocketClose assms timers_ok_sockClose[OF r]
    by (simp add: handle_def split: option.splits)
next
  case (TimerFires i)
  have o: "timers_ok (Veins_open (clearInterval i s))"
    using timers_ok_clear[OF assms, of i]
      timers_ok_cong[of "Veins_open (clearInterval i s)" "clearInterval i s"] by simp
  have "case raised_in s (ping_tick s) of
          Inl (x, s') \<Rightarrow> timers_ok s' | Inr s' \<Rightarrow> timers_ok s'"
    by (rule timers_ok_raised_in[OF assms]) (auto dest: same_timers_ping_tick)
  then show ?thesis
    using TimerFires assms o
    by (simp add: handle_def split: option.splits timer.splits)
next
  case LoadEnd
  show ?thesis
  proof (cases "readers s")
    case Nil
    then show ?thesis using LoadEnd assms by (simp add: handle_def)
  next
    case (Cons b bs)
    have r: "timers_ok (s\<lparr>readers := bs\<rparr>)"
      using assms timers_ok_cong[of "s\<lparr>readers := bs\<rparr>" s] by simp
    have "case raised_in (s\<lparr>readers := bs\<rparr>) (reader_loadend parse b (s\<lparr>readers := bs\<rparr>)) of
          Inl (x, s') \<Rightarrow> timers_ok s' | Inr s' \<Rightarrow> timers_ok s'"
      by (rule timers_ok_raised_in[OF r]) (auto dest: same_timers_reader_loadend)
    then show ?thesis
      using LoadEnd Cons by (simp add: handle_def)
  qed
qed

lemma timers_ok_step: "timers_ok s \<Longrightarrow> timers_ok (step parse e s)"
  using timers_ok_handle[of s parse e] by (auto simp: step_def split: sum.splits)

lemma timers_ok_run: "timers_ok s \<Longrightarrow> timers_ok (run parse es s)"
  by (induction es arbitrary: s) (simp_all add: timers_ok_step)

lemma timers_ok_new: "timers_ok (Veins_new u err ws)"
  by (simp add: timers_ok_def Veins_new_def)

lemma keepalive_at_most_one:
  assumes "timers_ok s"
  shows "length (keepalive_timers s) \<le> 1"
proof -
  have d: "distinct (map fst (keepalive_timers s))"
    using assms by (simp add: timers_ok_def keepalive_timers_def distinct_map_filter)
  have "set (map fst (keepalive_timers s)) \<subseteq> {ping s}"
    using assms by (auto simp: timers_ok_def keepalive_timers_def)
  then have "card (set (map fst (keepalive_timers s))) \<le> 1"
    using card_mono[of "{ping s}" "set (map fst (keepalive_timers s))"] by simp
  then show ?thesis using distinct_card[OF d] by simp
qed

lemma keepalive_sockClose:
  assumes "timers_ok s"
  shows "keepalive_timers (sockClose s) = []"
proof -
  have none: "keepalive_timers (if ping s \<noteq> 0 then clearInterval (ping s) s else s) = []"
    using keepalive_clear_ping[OF assms] timers_ok_no_interval[OF assms] by auto
  then show ?thesis
    by (auto simp: sockClose_def Let_def setTimeout_def keepalive_timers_def)
qed

text \<open>
  Claim C3, as amended. The keepalive timer has a period of 300000 ms. The continuation
  of the token fetch starts it right after it has made the socket, while the socket is
  still connecting and before any \<open>authorized\<close> message, and only when the stored
  timer id is 0. Every close event of a socket cancels it: after the event no keepalive
  timer is active. In every state the manager can reach at most one keepalive timer is
  active, and its id is the stored one. Each tick calls \<open>ping_tick\<close>, which sends a
  \<open>ping\<close> frame on the socket held in the socket field when that socket is open, and does
  nothing when the field is \<open>null\<close> or \<open>false\<close>.
\<close>

theorem keepalive_timer_lifecycle:
  "(has_WebSocket s \<longrightarrow>
      timers (open_then tok s) =
        (if ping s = 0 then timers s @ [(next_timer s, Interval 300000)] else timers s)
      \<and> ping (open_then tok s) = (if ping s = 0 then next_timer s else ping s)
      \<and> socket (open_then tok s) = Sock (next_sock s)
      \<and> readyState_of (open_then tok s) (next_sock s) = CONNECTING
      \<and> close (open_then tok s) = close s)
   \<and> (heap (run parse es (Veins_new u err ws)) n = Some w \<and> readyState w \<noteq> CLOSED \<longrightarrow>
        keepalive_timers (step parse (SocketClose n) (run parse es (Veins_new u err ws))) = [])
   \<and> length (keepalive_timers (run parse es (Veins_new u err ws))) \<le> 1
   \<and> (\<forall>t\<in>set (keepalive_timers (run parse es (Veins_new u err ws))).
         t = (ping (run parse es (Veins_new u err ws)), Interval 300000))
   \<and> (map_of (timers s) i = Some (Interval ms) \<longrightarrow>
        handle parse (TimerFires i) s = raised_in s (ping_tick s))
   \<and> (socket s = Sock m \<and> readyState_of s m = OPEN \<longrightarrow>
        ping_tick s = Inr (s\<lparr>calls := calls s @ [Send m (Obj Ping)]\<rparr>))
   \<and> (socket s = SockNull \<or> socket s = SockFalse \<longrightarrow> ping_tick s = Inr s)"
proof -
  define r where "r = run parse es (Veins_new u err ws)"
  have ok: "timers_ok r"
    unfolding r_def by (rule timers_ok_run[OF timers_ok_new])
  have start: "has_WebSocket s \<longrightarrow>
      timers (open_then tok s) =
        (if ping s = 0 then timers s @ [(next_timer s, Interval 300000)] else timers s)
      \<and> ping (open_then tok s) = (if ping s = 0 then next_timer s else ping s)
      \<and> socket (open_then tok s) = Sock (next_sock s)
      \<and> readyState_of (open_then tok s) (next_sock s) = CONNECTING
      \<and> close (open_then tok s) = close s"
    by (simp add: open_then_supported Let_def readyState_of_def)
  have cancel: "heap r n = Some w \<and> readyState w \<noteq> CLOSED \<longrightarrow>
        keepalive_timers (step parse (SocketClose n) r) = []"
  proof
    assume a: "heap r n = Some w \<and> readyState w \<noteq> CLOSED"
    have "timers_ok (set_readyState n CLOSED r)"
      using ok timers_ok_cong[of "set_readyState n CLOSED r" r] by simp
    then show "keepalive_timers (step parse (SocketClose n) r) = []"
      using a by (simp add: step_SocketClose keepalive_sockClose)
  qed
  have one: "length (keepalive_timers r) \<le> 1"
    by (rule keepalive_at_most_one[OF ok])
  have which: "\<forall>t\<in>set (keepalive_timers r). t = (ping r, Interval 300000)"
    using ok by (auto simp: timers_ok_def keepalive_timers_def)
  have tick: "map_of (timers s) i = Some (Interval ms) \<longrightarrow>
        handle parse (TimerFires i) s = raised_in s (ping_tick s)"
    by (simp add: handle_def)
  have sends: "socket s = Sock m \<and> readyState_of s m = OPEN \<longrightarrow>
        ping_tick s = Inr (s\<lparr>calls := calls s @ [Send m (Obj Ping)]\<rparr>)"
    by (simp add: ping_tick_def WebSocket_send_def record_call_def)
  have idle: "socket s = SockNull \<or> socket s = SockFalse \<longrightarrow> ping_tick s = Inr s"
    by (auto simp: ping_tick_def)
  show ?thesis
    unfolding r_def[symmetric] using start cancel one which tick sends idle by blast
qed

theorem keepalive_timer_lifecycle_witness:
  "timers (open_then ''tok2'' example_open) = [(1, Interval 300000)]
   \<and> timers (open_then ''tok'' (example_pending\<lparr>auth_pending := 0\<rparr>)) = [(1, Interval 300000)]
   \<and> readyState_of (open_then ''tok'' (example_pending\<lparr>auth_pending := 0\<rparr>)) 0 = CONNECTING
   \<and> handle example_parse (TimerFires 1) example_open =
       Inr (example_open\<lparr>calls := calls example_open @ [Send 0 (Obj Ping)]\<rparr>)
   \<and> keepalive_timers (step example_parse (SocketClose 0) example_open) = []"
proof -
  note t1 = keepalive_timer_lifecycle
    [of example_open "''tok2''" example_parse
        "[Subscribe ''k'' 1, AuthFulfilled ''tok'', SocketOpen 0,
          SocketMessage 0 (Text ''authorized'')]"
        "''wss://host''" "Some 7" True 0
        "\<lparr>ws_url = ''wss://host'', readyState = OPEN, open_auth = ''tok''\<rparr>" 1 300000 0]
  note t2 = keepalive_timer_lifecycle [of "example_pending\<lparr>auth_pending := 0\<rparr>" "''tok''"]
  have a: "timers (open_then ''tok2'' example_open) = [(1, Interval 300000)]"
    using t1 by (simp add: example_open_eq)
  have b: "timers (open_then ''tok'' (example_pending\<lparr>auth_pending := 0\<rparr>)) = [(1, Interval 300000)]
     \<and> readyState_of (open_then ''tok'' (example_pending\<lparr>auth_pending := 0\<rparr>)) 0 = CONNECTING"
    using t2 by (simp add: example_pending_eq)
  have c: "handle example_parse (TimerFires 1) example_open =
       Inr (example_open\<lparr>calls := calls example_open @ [Send 0 (Obj Ping)]\<rparr>)"
    using t1 by (simp add: example_open_eq raised_in_def readyState_of_def)
  have h: "heap example_open 0 =
             Some \<lparr>ws_url = ''wss://host'', readyState = OPEN, open_auth = ''tok''\<rparr>"
    by (simp add: example_open_eq)
  have d: "keepalive_timers (step example_parse (SocketClose 0) example_open) = []"
    using t1[folded example_open_def] h by simp
  show ?thesis using a b c d by simp
qed

text \<open>
  The claim as stated fails twice. After the first \<open>subscribe\<close> and the arrival of the
  token the keepalive timer is active although the socket is still connecting and no
  \<open>authorized\<close> message has come (\<open>close\<close> is still true). And after an unexpected close,
  the reconnect and the \<open>authorized\<close> message on the new socket, no timer is active: the
  close hook cancelled the timer without resetting the stored id, so \<open>_open\<close> did not
  start a new one.
\<close>

theorem keepalive_timer_counterexample:
  "timers (run example_parse [Subscribe ''k'' 1, AuthFulfilled ''tok'']
             (Veins_new ''wss://host'' (Some 7) True)) = [(1, Interval 300000)]
   \<and> readyState_of (run example_parse [Subscribe ''k'' 1, AuthFulfilled ''tok'']
             (Veins_new ''wss://host'' (Some 7) True)) 0 = CONNECTING
   \<and> close (run example_parse [Subscribe ''k'' 1, AuthFulfilled ''tok'']
             (Veins_new ''wss://host'' (Some 7) True))
   \<and> timers (run example_parse
               [SocketClose 0, TimerFires 2, AuthFulfilled ''tok2'', SocketOpen 1,
                SocketMessage 1 (Text ''authorized'')] example_open) = []
   \<and> socket (run example_parse
               [SocketClose 0, TimerFires 2, AuthFulfilled ''tok2'', SocketOpen 1,
                SocketMessage 1 (Text ''authorized'')] example_open) = Sock 1
   \<and> readyState_of (run example_parse
               [SocketClose 0, TimerFires 2, AuthFulfilled ''tok2'', SocketOpen 1,
                SocketMessage 1 (Text ''authorized'')] example_open) 1 = OPEN
   \<and> \<not> close (run example_parse
               [SocketClose 0, TimerFires 2, AuthFulfilled ''tok2'', SocketOpen 1,
                SocketMessage 1 (Text ''authorized'')] example_open)
   \<and> ping (run example_parse
               [SocketClose 0, TimerFires 2, AuthFulfilled ''tok2'', SocketOpen 1,
                SocketMessage 1 (Text ''authorized'')] example_open) = 1"
  by (simp add: example_open_eq run_defs)

section \<open>The life cycle invariant\<close>

lemma lifecycle_parts_cong:
  assumes "heap s' = heap s" and "socket s' = socket s" and "timers s' = timers s"
  shows "all_closed s' = all_closed s" and "only_intervals s' = only_intervals s"
    and "one_timeout s' = one_timeout s" and "current_only s' = current_only s"
  using assms
  by (simp_all add: all_closed_def only_intervals_def one_timeout_def current_only_def
        readyState_of_def)

lemma lifecycle_ok_cong:
  assumes "heap s' = heap s" and "socket s' = socket s" and "auth_pending s' = auth_pending s"
    and "timers s' = timers s"
  shows "lifecycle_ok s' = lifecycle_ok s"
  unfolding lifecycle_ok_def lifecycle_parts_cong[OF assms(1,2,4)] assms(2,3) ..

lemma lifecycle_ok_new: "lifecycle_ok (Veins_new u err ws)"
  by (simp add: lifecycle_ok_def all_closed_def only_intervals_def current_only_def
        readyState_of_def Veins_new_def)

lemma all_closed_current_only: "all_closed s \<Longrightarrow> current_only s"
  by (simp add: all_closed_def current_only_def)

lemma lifecycle_ok_fewer_timers:
  assumes ok: "lifecycle_ok s" and sub: "set (timers s') \<subseteq> set (timers s)"
    and same: "heap s' = heap s" "socket s' = socket s" "auth_pending s' = auth_pending s"
  shows "lifecycle_ok s'"
proof -
  have rs: "readyState_of s' = readyState_of s"
    using same(1) by (simp add: readyState_of_def fun_eq_iff)
  have ac: "all_closed s' = all_closed s" by (simp add: all_closed_def rs)
  have co: "current_only s' = current_only s" by (simp add: current_only_def rs same)
  have oi: "only_intervals s \<Longrightarrow> only_intervals s'"
    using sub by (auto simp: only_intervals_def)
  have ot: "one_timeout s \<Longrightarrow> one_timeout s'"
    using sub unfolding one_timeout_def by blast
  show ?thesis
    using ok oi ot unfolding lifecycle_ok_def ac co same(2,3) by blast
qed

lemma lifecycle_ok_clear: "lifecycle_ok s \<Longrightarrow> lifecycle_ok (clearInterval i s)"
  by (erule lifecycle_ok_fewer_timers) auto


lemma lifecycle_ok_track_or_open: "lifecycle_ok s \<Longrightarrow> lifecycle_ok (track_or_open k s)"
proof (cases "socket s")
  case SockNull
  assume ok: "lifecycle_ok s"
  have oi: "only_intervals s" using ok SockNull unfolding lifecycle_ok_def by blast
  have p: "auth_pending s = 0" using ok SockNull unfolding lifecycle_ok_def by auto
  have "current_only s" using ok unfolding lifecycle_ok_def by blast
  then have ac: "all_closed s" using SockNull by (auto simp: all_closed_def current_only_def)
  define s' where "s' = Veins_open (s\<lparr>socket := SockFalse\<rparr>)"
  have t: "track_or_open k s = s'"
    using SockNull by (simp add: track_or_open_def s'_def)
  have ac': "all_closed s'"
    using ac by (simp add: all_closed_def readyState_of_def s'_def)
  have oi': "only_intervals s'"
    using oi by (simp add: only_intervals_def s'_def)
  have f: "socket s' = SockFalse" "auth_pending s' = 1" using p by (simp_all add: s'_def)
  show ?thesis
    unfolding t lifecycle_ok_def using ac' oi' f all_closed_current_only[OF ac'] by simp
next
  case SockFalse
  assume "lifecycle_ok s"
  then show ?thesis using SockFalse by (simp add: track_or_open_def)
next
  case (Sock n)
  assume ok: "lifecycle_ok s"
  have "lifecycle_ok (track_or_open k s) = lifecycle_ok s"
    using Sock by (intro lifecycle_ok_cong) (simp_all add: track_or_open_def)
  then show ?thesis using ok by simp
qed

lemma lifecycle_ok_send_untrack: "lifecycle_ok (send_untrack k s) = lifecycle_ok s"
  by (rule lifecycle_ok_cong) (simp_all add: send_untrack_def split: socket_ref.splits)

lemma lifecycle_ok_keys: "lifecycle_ok (s\<lparr>keys := ks\<rparr>) = lifecycle_ok s"
  by (rule lifecycle_ok_cong) simp_all

lemma readyState_of_WebSocket_close:
  "readyState_of (WebSocket_close n code reason s) m =
     (if m = n \<and> (readyState_of s n = CONNECTING \<or> readyState_of s n = OPEN) then CLOSING
      else readyState_of s m)"
  by (auto simp: readyState_of_def WebSocket_close_heap split: option.splits)

lemma lifecycle_ok_WebSocket_close:
  assumes ok: "lifecycle_ok s" and cur: "socket s = Sock n"
  shows "lifecycle_ok (WebSocket_close n code reason s)"
proof (cases "readyState_of s n = CONNECTING \<or> readyState_of s n = OPEN")
  case False
  then have rs: "readyState_of (WebSocket_close n code reason s) = readyState_of s"
    by (auto simp: readyState_of_WebSocket_close fun_eq_iff)
  have parts: "all_closed (WebSocket_close n code reason s) = all_closed s"
    "only_intervals (WebSocket_close n code reason s) = only_intervals s"
    "one_timeout (WebSocket_close n code reason s) = one_timeout s"
    "current_only (WebSocket_close n code reason s) = current_only s"
    by (simp_all add: all_closed_def only_intervals_def one_timeout_def current_only_def rs)
  show ?thesis
    using ok unfolding lifecycle_ok_def parts by simp
next
  case True
  define s' where "s' = WebSocket_close n code reason s"
  have live: "readyState_of s n \<noteq> CLOSED" using True by auto
  then have nac: "\<not> all_closed s" by (auto simp: all_closed_def)
  have p: "auth_pending s = 0" and oi: "only_intervals s"
    using ok nac unfolding lifecycle_ok_def by auto
  have "current_only s" using ok unfolding lifecycle_ok_def by blast
  then have co: "current_only s'"
    using cur unfolding current_only_def s'_def
    by (simp add: readyState_of_WebSocket_close)
  have oi': "only_intervals s'"
    using oi by (simp add: only_intervals_def s'_def)
  have f: "auth_pending s' = 0" using p by (simp add: s'_def)
  show ?thesis
    unfolding s'_def[symmetric] lifecycle_ok_def using co oi' f by simp
qed

lemma lifecycle_ok_teardown: "lifecycle_ok s \<Longrightarrow> lifecycle_ok (teardown s)"
proof -
  assume ok: "lifecycle_ok s"
  define s3 where "s3 = (if ping s \<noteq> 0 then (clearInterval (ping s) s)\<lparr>ping := 0\<rparr> else s)"
  define s4 where "s4 = s3\<lparr>close := True\<rparr>"
  have "lifecycle_ok ((clearInterval (ping s) s)\<lparr>ping := 0\<rparr>) = lifecycle_ok (clearInterval (ping s) s)"
    by (rule lifecycle_ok_cong) simp_all
  then have ok3: "lifecycle_ok s3" using ok lifecycle_ok_clear[OF ok] by (simp add: s3_def)
  have "lifecycle_ok s4 = lifecycle_ok s3" unfolding s4_def by (rule lifecycle_ok_cong) simp_all
  then have ok4: "lifecycle_ok s4" using ok3 by simp
  have t: "teardown s = (case socket s4 of
           Sock n \<Rightarrow> WebSocket_close n 1000 ''nothing else to track'' s4
         | SockNull \<Rightarrow> s4 | SockFalse \<Rightarrow> s4)"
    by (simp add: teardown_def s3_def s4_def Let_def split: socket_ref.splits)
  show ?thesis
  proof (cases "socket s4")
    case (Sock n)
    then show ?thesis unfolding t using lifecycle_ok_WebSocket_close[OF ok4 Sock] by simp
  next
    case SockNull
    then show ?thesis unfolding t using ok4 by simp
  next
    case SockFalse
    then show ?thesis unfolding t using ok4 by simp
  qed
qed

lemma lifecycle_ok_subscribe:
  assumes "lifecycle_ok s" and "subscribe k c s = Inr s'"
  shows "lifecycle_ok s'"
proof -
  have "\<exists>ks. s' = track_or_open k (s\<lparr>keys := ks\<rparr>)"
    using assms(2) by (auto simp: subscribe_eq split: if_splits option.splits)
  then obtain ks where s': "s' = track_or_open k (s\<lparr>keys := ks\<rparr>)" by blast
  show ?thesis
    unfolding s' using assms(1) by (intro lifecycle_ok_track_or_open) (simp add: lifecycle_ok_keys)
qed

lemma lifecycle_ok_unsubscribe:
  assumes "lifecycle_ok s"
  shows "lifecycle_ok (snd (unsubscribe k c s))"
proof -
  have u: "lifecycle_ok ((send_untrack k s)\<lparr>keys := ks\<rparr>)" for ks
    using assms by (simp add: lifecycle_ok_keys lifecycle_ok_send_untrack)
  have v: "lifecycle_ok (teardown ((send_untrack k s)\<lparr>keys := ks\<rparr>))" for ks
    by (rule lifecycle_ok_teardown[OF u])
  show ?thesis
    using assms u v by (simp add: unsubscribe_eq lifecycle_ok_keys split: option.splits)
qed

lemma lifecycle_ok_open_then:
  assumes ok: "lifecycle_ok s" and p: "auth_pending s = 0"
    and ac: "all_closed s" and oi: "only_intervals s"
  shows "lifecycle_ok (open_then tok s)"
proof (cases "has_WebSocket s")
  case False
  define s' where "s' = open_then tok s"
  have f: "heap s' = heap s" "timers s' = timers s" "auth_pending s' = 0" "socket s' = SockFalse"
    using False p by (simp_all add: s'_def open_then_def WSHelper_def Let_def split: option.splits)
  have ac': "all_closed s'" using ac by (simp add: all_closed_def readyState_of_def f)
  have oi': "only_intervals s'" using oi by (simp add: only_intervals_def f)
  show ?thesis
    unfolding s'_def[symmetric] lifecycle_ok_def
    using ac' oi' f all_closed_current_only[OF ac'] by simp
next
  case True
  define s' where "s' = open_then tok s"
  have f: "auth_pending s' = 0" "socket s' = Sock (next_sock s)"
    "heap s' = (heap s)(next_sock s \<mapsto>
                       \<lparr>ws_url = url s, readyState = CONNECTING, open_auth = tok\<rparr>)"
    "set (timers s') \<subseteq> insert (next_timer s, Interval 300000) (set (timers s))"
    using True p by (auto simp: s'_def open_then_supported Let_def)
  have co: "current_only s'"
    using ac by (auto simp: current_only_def all_closed_def readyState_of_def f split: if_splits)
  have oi': "only_intervals s'"
    using oi f(4) by (auto simp: only_intervals_def)
  show ?thesis
    unfolding s'_def[symmetric] lifecycle_ok_def using co oi' f by simp
qed

lemma readyState_of_set_readyState:
  "readyState_of (set_readyState n r s) m =
     (if m = n \<and> heap s n \<noteq> None then r else readyState_of s m)"
  by (auto simp: readyState_of_def set_readyState_heap split: option.splits)

lemma lifecycle_ok_socket_closes:
  assumes ok: "lifecycle_ok s" and live: "readyState_of s n \<noteq> CLOSED"
  shows "lifecycle_ok (sockClose (set_readyState n CLOSED s))"
proof -
  define s0 where "s0 = set_readyState n CLOSED s"
  define s1 where "s1 = (if ping s0 \<noteq> 0 then clearInterval (ping s0) s0 else s0)"
  have co: "current_only s" using ok unfolding lifecycle_ok_def by blast
  have cur: "socket s = Sock n" using co live by (simp add: current_only_def)
  have nac: "\<not> all_closed s" using live by (auto simp: all_closed_def)
  have p: "auth_pending s = 0" and oi: "only_intervals s"
    using ok nac unfolding lifecycle_ok_def by auto
  have ac0: "all_closed s0"
    unfolding all_closed_def s0_def
  proof
    fix m
    show "readyState_of (set_readyState n CLOSED s) m = CLOSED"
    proof (cases "m = n")
      case True
      have "heap s n \<noteq> None" using live by (auto simp: readyState_of_def split: option.splits)
      then show ?thesis using True by (simp add: readyState_of_set_readyState)
    next
      case False
      have "readyState_of s m = CLOSED"
      proof (rule ccontr)
        assume "readyState_of s m \<noteq> CLOSED"
        then have "socket s = Sock m" using co by (simp add: current_only_def)
        then show False using cur False by simp
      qed
      then show ?thesis using False by (simp add: readyState_of_set_readyState)
    qed
  qed
  have ac1: "all_closed s1" using ac0 by (simp add: all_closed_def s1_def readyState_of_def)
  have oi1: "only_intervals s1" using oi by (auto simp: only_intervals_def s1_def s0_def)
  have f1: "auth_pending s1 = 0" "socket s1 = Sock n" using p cur by (simp_all add: s1_def s0_def)
  have sc: "sockClose s0 = (if close s1 then s1\<lparr>socket := SockNull\<rparr>
                              else snd (setTimeout 5000 (s1\<lparr>close := True\<rparr>)))"
    by (simp add: sockClose_def s1_def Let_def)
  show ?thesis
  proof (cases "close s1")
    case True
    define s' where "s' = s1\<lparr>socket := SockNull\<rparr>"
    have ac': "all_closed s'" using ac1 by (simp add: all_closed_def s'_def readyState_of_def)
    have oi': "only_intervals s'" using oi1 by (simp add: only_intervals_def s'_def)
    have f: "auth_pending s' = 0" using f1 by (simp add: s'_def)
    have "lifecycle_ok s'"
      unfolding lifecycle_ok_def using ac' oi' f all_closed_current_only[OF ac'] by simp
    then show ?thesis using True sc by (simp add: s0_def s'_def)
  next
    case False
    define s' where "s' = snd (setTimeout 5000 (s1\<lparr>close := True\<rparr>))"
    have ac': "all_closed s'"
      using ac1 by (simp add: all_closed_def s'_def readyState_of_def setTimeout_def)
    have ot: "one_timeout s'"
      using oi1 by (auto simp: one_timeout_def only_intervals_def s'_def setTimeout_def)
    have f: "auth_pending s' = 0" "socket s' = Sock n"
      using f1 by (simp_all add: s'_def setTimeout_def)
    have "lifecycle_ok s'"
      unfolding lifecycle_ok_def using ac' ot f all_closed_current_only[OF ac'] by simp
    then show ?thesis using False sc by (simp add: s0_def s'_def)
  qed
qed


lemma same_lifecycle_WebSocket_send:
  "WebSocket_send n p s = Inr s' \<Longrightarrow>
   heap s' = heap s \<and> socket s' = socket s \<and> auth_pending s' = auth_pending s \<and> timers s' = timers s"
  by (auto simp: WebSocket_send_def split: if_splits)

lemma same_lifecycle_handleMsg:
  "handleMsg m s = Inr s' \<Longrightarrow>
   heap s' = heap s \<and> socket s' = socket s \<and> auth_pending s' = auth_pending s \<and> timers s' = timers s"
  by (auto simp: handleMsg_def split: option.splits if_splits)

lemma same_lifecycle_sockMessage:
  "sockMessage parse d s = Inr s' \<Longrightarrow>
   heap s' = heap s \<and> socket s' = socket s \<and> auth_pending s' = auth_pending s \<and> timers s' = timers s"
  by (auto simp: sockMessage_def dest: same_lifecycle_handleMsg
        split: ev_data.splits option.splits if_splits)

lemma same_lifecycle_ping_tick:
  "ping_tick s = Inr s' \<Longrightarrow>
   heap s' = heap s \<and> socket s' = socket s \<and> auth_pending s' = auth_pending s \<and> timers s' = timers s"
  by (auto simp: ping_tick_def dest: same_lifecycle_WebSocket_send split: socket_ref.splits)

lemma same_lifecycle_reader_loadend:
  "reader_loadend parse b s = Inr s' \<Longrightarrow>
   heap s' = heap s \<and> socket s' = socket s \<and> auth_pending s' = auth_pending s \<and> timers s' = timers s"
  by (auto simp: reader_loadend_def dest: same_lifecycle_handleMsg split: option.splits)

lemma lifecycle_ok_raised_in:
  assumes "lifecycle_ok s"
    and "\<And>s'. r = Inr s' \<Longrightarrow>
           heap s' = heap s \<and> socket s' = socket s \<and> auth_pending s' = auth_pending s
           \<and> timers s' = timers s"
  shows "case raised_in s r of Inl (x, s') \<Rightarrow> lifecycle_ok s' | Inr s' \<Rightarrow> lifecycle_ok s'"
proof (cases r)
  case (Inl x)
  then show ?thesis using assms(1) by (simp add: raised_in_def)
next
  case (Inr s')
  then have "lifecycle_ok s' = lifecycle_ok s" using assms(2) by (intro lifecycle_ok_cong) simp_all
  then show ?thesis using Inr assms(1) by (simp add: raised_in_def)
qed

lemma lifecycle_ok_socket_opens:
  assumes ok: "lifecycle_ok s" and w: "heap s n = Some w" "readyState w = CONNECTING"
  shows "lifecycle_ok (set_readyState n OPEN s)"
proof -
  define s' where "s' = set_readyState n OPEN s"
  have live: "readyState_of s n \<noteq> CLOSED" using w by (simp add: readyState_of_def)
  then have nac: "\<not> all_closed s" by (auto simp: all_closed_def)
  have p: "auth_pending s = 0" and oi: "only_intervals s" and co: "current_only s"
    using ok nac unfolding lifecycle_ok_def by auto
  have cur: "socket s = Sock n" using co live by (simp add: current_only_def)
  have co': "current_only s'"
    using co cur by (auto simp: current_only_def s'_def readyState_of_set_readyState split: if_splits)
  have oi': "only_intervals s'" using oi by (simp add: only_intervals_def s'_def)
  have f: "auth_pending s' = 0" using p by (simp add: s'_def)
  show ?thesis
    unfolding s'_def[symmetric] lifecycle_ok_def using co' oi' f by simp
qed

lemma lifecycle_ok_timeout_fires:
  assumes ok: "lifecycle_ok s" and t: "map_of (timers s) i = Some (Timeout ms)"
  shows "lifecycle_ok (Veins_open (clearInterval i s))"
proof -
  define s' where "s' = Veins_open (clearInterval i s)"
  have mem: "(i, Timeout ms) \<in> set (timers s)" by (rule map_of_SomeD[OF t])
  then have noi: "\<not> only_intervals s" by (force simp: only_intervals_def)
  have p: "auth_pending s = 0" and nn: "socket s \<noteq> SockNull" and ac: "all_closed s"
    and ot: "one_timeout s"
    using ok noi unfolding lifecycle_ok_def by auto
  have oi': "only_intervals s'"
    unfolding only_intervals_def
  proof
    fix t assume "t \<in> set (timers s')"
    then have tin: "t \<in> set (timers s)" and ne: "fst t \<noteq> i" by (auto simp: s'_def)
    show "is_Interval (snd t)"
    proof (rule ccontr)
      assume "\<not> is_Interval (snd t)"
      then have "fst t = fst (i, Timeout ms)"
        using ot tin mem unfolding one_timeout_def by (metis is_Interval.simps(2) snd_conv)
      then show False using ne by simp
    qed
  qed
  have ac': "all_closed s'" using ac by (simp add: all_closed_def s'_def readyState_of_def)
  have f: "auth_pending s' = 1" "socket s' = socket s" using p by (simp_all add: s'_def)
  show ?thesis
    unfolding s'_def[symmetric] lifecycle_ok_def
    using ac' oi' f nn all_closed_current_only[OF ac'] by simp
qed

lemma lifecycle_ok_handle:
  assumes "lifecycle_ok s"
  shows "case handle parse e s of Inl (x, s') \<Rightarrow> lifecycle_ok s' | Inr s' \<Rightarrow> lifecycle_ok s'"
proof (cases e)
  case (Subscribe k c)
  then show ?thesis
    using assms lifecycle_ok_subscribe[OF assms, of k c]
    by (auto simp: handle_def raised_in_def split: sum.splits)
next
  case (Unsubscribe k c)
  then show ?thesis using lifecycle_ok_unsubscribe[OF assms] by (simp add: handle_def)
next
  case (AuthFulfilled tok)
  show ?thesis
  proof (cases "auth_pending s = 0")
    case True
    then show ?thesis using AuthFulfilled assms by (simp add: handle_def)
  next
    case False
    define s0 where "s0 = s\<lparr>auth_pending := auth_pending s - 1\<rparr>"
    have one: "auth_pending s = 1" and nn: "socket s \<noteq> SockNull" and ac: "all_closed s"
      and oi: "only_intervals s"
      using assms False unfolding lifecycle_ok_def by auto
    have ac0: "all_closed s0" using ac by (simp add: all_closed_def s0_def readyState_of_def)
    have oi0: "only_intervals s0" using oi by (simp add: only_intervals_def s0_def)
    have p0: "auth_pending s0 = 0" using one by (simp add: s0_def)
    have "lifecycle_ok s0"
      unfolding lifecycle_ok_def using ac0 oi0 p0 all_closed_current_only[OF ac0] by simp
    then have "lifecycle_ok (open_then tok s0)"
      using p0 ac0 oi0 by (rule lifecycle_ok_open_then)
    then show ?thesis using AuthFulfilled False by (simp add: handle_def s0_def)
  qed
next
  case AuthRejected
  show ?thesis
  proof (cases "auth_pending s = 0")
    case True
    then show ?thesis using AuthRejected assms by (simp add: handle_def)
  next
    case False
    define s0 where "s0 = s\<lparr>auth_pending := auth_pending s - 1\<rparr>"
    have one: "auth_pending s = 1" and ac: "all_closed s" and oi: "only_intervals s"
      using assms False unfolding lifecycle_ok_def by auto
    have ac0: "all_closed s0" using ac by (simp add: all_closed_def s0_def readyState_of_def)
    have oi0: "only_intervals s0" using oi by (simp add: only_intervals_def s0_def)
    have p0: "auth_pending s0 = 0" using one by (simp add: s0_def)
    have "lifecycle_ok s0"
      unfolding lifecycle_ok_def using ac0 oi0 p0 all_closed_current_only[OF ac0] by simp
    then show ?thesis using AuthRejected False by (simp add: handle_def s0_def)
  qed
next
  case (SocketOpen n)
  show ?thesis
  proof (cases "heap s n")
    case None
    then show ?thesis using SocketOpen assms by (simp add: handle_def)
  next
    case (Some w)
    show ?thesis
    proof (cases "readyState w = CONNECTING")
      case False
      then show ?thesis using SocketOpen Some assms by (simp add: handle_def)
    next
      case True
      have r: "lifecycle_ok (set_readyState n OPEN s)"
        by (rule lifecycle_ok_socket_opens[OF assms Some True])
      have "case raised_in (set_readyState n OPEN s)
                   (sockOpen (open_auth w) n (set_readyState n OPEN s)) of
              Inl (x, s') \<Rightarrow> lifecycle_ok s' | Inr s' \<Rightarrow> lifecycle_ok s'"
        by (rule lifecycle_ok_raised_in[OF r])
           (auto simp: sockOpen_def dest: same_lifecycle_WebSocket_send)
      then show ?thesis using SocketOpen Some True by (simp add: handle_def)
    qed
  qed
next
  case (SocketMessage n d)
  have "case raised_in s (sockMessage parse d s) of
          Inl (x, s') \<Rightarrow> lifecycle_ok s' | Inr s' \<Rightarrow> lifecycle_ok s'"
    by (rule lifecycle_ok_raised_in[OF assms]) (auto dest: same_lifecycle_sockMessage)
  then show ?thesis
    using SocketMessage assms by (simp add: handle_def)
next
  case (SocketClose n)
  show ?thesis
  proof (cases "heap s n")
    case None
    then show ?thesis using SocketClose assms by (simp add: handle_def)
  next
    case (Some w)
    show ?thesis
    proof (cases "readyState w = CLOSED")
      case True
      then show ?thesis using SocketClose Some assms by (simp add: handle_def)
    next
      case False
      then have "readyState_of s n \<noteq> CLOSED" using Some by (simp add: readyState_of_def)
      then have "lifecycle_ok (sockClose (set_readyState n CLOSED s))"
        by (rule lifecycle_ok_socket_closes[OF assms])
      then show ?thesis using SocketClose Some False by (simp add: handle_def)
    qed
  qed
next
  case (TimerFires i)
  show ?thesis
  proof (cases "map_of (timers s) i")
    case None
    then show ?thesis using TimerFires assms by (simp add: handle_def)
  next
    case (Some t)
    show ?thesis
    proof (cases t)
      case (Interval ms)
      have "case raised_in s (ping_tick s) of
              Inl (x, s') \<Rightarrow> lifecycle_ok s' | Inr s' \<Rightarrow> lifecycle_ok s'"
        by (rule lifecycle_ok_raised_in[OF assms]) (auto dest: same_lifecycle_ping_tick)
      then show ?thesis using TimerFires Some Interval by (simp add: handle_def)
    next
      case (Timeout ms)
      then have "lifecycle_ok (Veins_open (clearInterval i s))"
        using lifecycle_ok_timeout_fires[OF assms, of i ms] Some by simp
      then show ?thesis using TimerFires Some Timeout by (simp add: handle_def)
    qed
  qed
next
  case LoadEnd
  show ?thesis
  proof (cases "readers s")
    case Nil
    then show ?thesis using LoadEnd assms by (simp add: handle_def)
  next
    case (Cons b bs)
    have "lifecycle_ok (s\<lparr>readers := bs\<rparr>) = lifecycle_ok s"
      by (rule lifecycle_ok_cong) simp_all
    then have r: "lifecycle_ok (s\<lparr>readers := bs\<rparr>)" using assms by simp
    have "case raised_in (s\<lparr>readers := bs\<rparr>) (reader_loadend parse b (s\<lparr>readers := bs\<rparr>)) of
          Inl (x, s') \<Rightarrow> lifecycle_ok s' | Inr s' \<Rightarrow> lifecycle_ok s'"
      by (rule lifecycle_ok_raised_in[OF r]) (auto dest: same_lifecycle_reader_loadend)
    then show ?thesis
      using LoadEnd Cons by (simp add: handle_def)
  qed
qed

lemma lifecycle_ok_step: "lifecycle_ok s \<Longrightarrow> lifecycle_ok (step parse e s)"
  using lifecycle_ok_handle[of s parse e] by (auto simp: step_def split: sum.splits)

lemma lifecycle_ok_run: "lifecycle_ok s \<Longrightarrow> lifecycle_ok (run parse es s)"
  by (induction es arbitrary: s) (simp_all add: lifecycle_ok_step)

lemma pending_fetch_socket_not_null:
  "0 < auth_pending (run parse es (Veins_new u err ws)) \<Longrightarrow>
   socket (run parse es (Veins_new u err ws)) \<noteq> SockNull"
  using lifecycle_ok_run[OF lifecycle_ok_new, of parse es u err ws]
  unfolding lifecycle_ok_def by blast

section \<open>A token fetch that is rejected\<close>

text \<open>
  Claim C4, as amended. \<open>_open\<close> attaches no rejection handler to the token promise, so
  a rejection runs no code of the manager: nothing is reported to the error callback, no
  socket is made and no field changes (only the promise is no longer outstanding). A
  later \<open>subscribe\<close> starts the open sequence only when the socket field is \<open>null\<close>; while
  it is \<open>false\<close> (as \<open>subscribe\<close> set it before the fetch) or a socket, \<open>subscribe\<close> calls
  no token provider, creates no socket and at most sends a \<open>track\<close> frame on an open
  socket. In every state the manager can reach, the socket field is not \<open>null\<close> while a
  fetch is outstanding (last conjunct), so after a rejection no \<open>subscribe\<close> starts the
  open sequence again. There is no retry.
\<close>

theorem rejected_token_fetch:
  assumes "0 < auth_pending s"
  shows "step parse AuthRejected s = s\<lparr>auth_pending := auth_pending s - 1\<rparr>
     \<and> (socket s \<noteq> SockNull \<longrightarrow>
          (\<forall>s'. subscribe k cb (step parse AuthRejected s) = Inr s' \<longrightarrow>
             auth_pending s' = auth_pending s - 1 \<and> socket s' = socket s \<and> heap s' = heap s
             \<and> calls s' = calls s @
                  (case socket s of
                     Sock n \<Rightarrow> if readyState_of s n = OPEN then [Send n (Obj (Track k))] else []
                   | SockNull \<Rightarrow> [] | SockFalse \<Rightarrow> [])))
     \<and> (s = run parse es (Veins_new u err ws) \<longrightarrow> socket s \<noteq> SockNull)"
proof -
  have rejected: "step parse AuthRejected s = s\<lparr>auth_pending := auth_pending s - 1\<rparr>"
    using assms by (simp add: step_def handle_def)
  have later: "socket s \<noteq> SockNull \<longrightarrow>
          (\<forall>s'. subscribe k cb (s\<lparr>auth_pending := auth_pending s - 1\<rparr>) = Inr s' \<longrightarrow>
             auth_pending s' = auth_pending s - 1 \<and> socket s' = socket s \<and> heap s' = heap s
             \<and> calls s' = calls s @
                  (case socket s of
                     Sock n \<Rightarrow> if readyState_of s n = OPEN then [Send n (Obj (Track k))] else []
                   | SockNull \<Rightarrow> [] | SockFalse \<Rightarrow> []))"
    by (cases "socket s")
       (auto simp: subscribe_def readyState_of_def split: if_splits option.splits sum.splits)
  have reach: "s = run parse es (Veins_new u err ws) \<longrightarrow> socket s \<noteq> SockNull"
    using assms pending_fetch_socket_not_null[of parse es u err ws] by blast
  show ?thesis
    unfolding rejected using later reach by blast
qed

theorem rejected_token_fetch_witness:
  "step example_parse AuthRejected example_pending = example_pending\<lparr>auth_pending := 0\<rparr>
   \<and> subscribe ''j'' 2 (step example_parse AuthRejected example_pending) =
       Inr (example_pending\<lparr>auth_pending := 0, keys := [(''k'', [1]), (''j'', [2])]\<rparr>)"
  using rejected_token_fetch [of example_pending example_parse "''j''" 2]
  by (simp add: example_pending_eq subscribe_def has_property_def Object_prototype_names_def)

text \<open>
  The claim as stated fails: on an instance with an error callback, after the first
  \<open>subscribe\<close> and the rejection of its token fetch the only call made is the one to the
  token provider (nothing was reported), and a second \<open>subscribe\<close> adds no call: the open
  sequence is not started again.
\<close>

theorem rejected_token_fetch_counterexample:
  "calls (run example_parse [Subscribe ''k'' 1, AuthRejected]
            (Veins_new ''wss://host'' (Some 7) True)) = [AuthCall]
   \<and> calls (run example_parse [Subscribe ''k'' 1, AuthRejected, Subscribe ''j'' 2]
            (Veins_new ''wss://host'' (Some 7) True)) = [AuthCall]
   \<and> auth_pending (run example_parse [Subscribe ''k'' 1, AuthRejected, Subscribe ''j'' 2]
            (Veins_new ''wss://host'' (Some 7) True)) = 0
   \<and> socket (run example_parse [Subscribe ''k'' 1, AuthRejected, Subscribe ''j'' 2]
            (Veins_new ''wss://host'' (Some 7) True)) = SockFalse"
  by (simp add: run_defs)

end
